theory Spec2Isabelle
  imports Complex_Main "HOL-Library.Word"
begin

section \<open>HTTP statistics (pkg/util/httpstat)\<close>

text \<open>
  Go's \<open>uint64\<close> is \<open>64 word\<close>: addition wraps modulo \<open>2 ^ 64\<close>, comparison and
  division are unsigned. \<open>time.Duration\<close> is an \<open>int64\<close> count of nanoseconds, kept as a
  \<open>64 word\<close> and read through \<open>sint\<close>. \<open>float64\<close> rates are modelled by \<open>real\<close>; the
  only float operations of this package are a comparison with zero and a division.
\<close>

type_synonym uint64 = "64 word"
type_synonym int64 = "64 word"

subsection \<open>The moving averages of the metrics library\<close>

text \<open>
  \<open>metrics.EWMA\<close> belongs to the imported library go-metrics (\<open>StandardEWMA\<close>). Its three
  methods used here are modelled after that library: \<open>Update\<close> adds to the uncounted events,
  \<open>Tick\<close> folds the uncounted events of the last five seconds into the rate (the first tick
  sets the rate), \<open>Rate\<close> reports events per second.
\<close>

record EWMA =
  uncounted :: int
  alpha :: real
  rate :: real
  init :: bool

definition NewEWMA :: "real \<Rightarrow> EWMA" where
  "NewEWMA a = \<lparr>uncounted = 0, alpha = a, rate = 0, init = False\<rparr>"

definition NewEWMA1 :: EWMA where
  "NewEWMA1 = NewEWMA (1 - exp (- 5 / 60 / 1))"

definition NewEWMA5 :: EWMA where
  "NewEWMA5 = NewEWMA (1 - exp (- 5 / 60 / 5))"

definition NewEWMA15 :: EWMA where
  "NewEWMA15 = NewEWMA (1 - exp (- 5 / 60 / 15))"

definition Update :: "int \<Rightarrow> EWMA \<Rightarrow> EWMA" where
  "Update n a = a\<lparr>uncounted := uncounted a + n\<rparr>"

definition Tick :: "EWMA \<Rightarrow> EWMA" where
  "Tick a =
     (let count = uncounted a;
          instantRate = real_of_int count / 5000000000
      in if init a
         then a\<lparr>uncounted := 0, rate := rate a + alpha a * (instantRate - rate a)\<rparr>
         else a\<lparr>uncounted := 0, rate := instantRate, init := True\<rparr>)"

definition Rate :: "EWMA \<Rightarrow> real" where
  "Rate a = rate a * 1000000000"

subsection \<open>Data\<close>

text \<open>
  The duration sampler and the status-code counter of \<open>HTTPStat\<close> (and the percentile and
  code fields of \<open>Status\<close> they fill) live in other packages; no field below reads them,
  and they are left out of the records. The names \<open>min\<close>, \<open>max\<close>, \<open>total\<close>, \<open>Min\<close> and
  \<open>Max\<close> are HOL constants, so these fields carry the suffix \<open>_d\<close>; the size fields of
  \<open>Status\<close> carry the prefix \<open>S\<close> to keep them apart from those of \<open>Metric\<close>.
\<close>

record HTTPStat =
  count :: uint64
  rate1 :: EWMA
  rate5 :: EWMA
  rate15 :: EWMA
  errCount :: uint64
  errRate1 :: EWMA
  errRate5 :: EWMA
  errRate15 :: EWMA
  m1ErrPercent :: real
  m5ErrPercent :: real
  m15ErrPercent :: real
  total_d :: uint64
  min_d :: uint64
  max_d :: uint64
  reqSize :: uint64
  respSize :: uint64

record Metric =
  StatusCode :: int
  Duration :: int64
  ReqSize :: uint64
  RespSize :: uint64

record Status =
  Count :: uint64
  M1 :: real
  M5 :: real
  M15 :: real
  ErrCount :: uint64
  M1Err :: real
  M5Err :: real
  M15Err :: real
  M1ErrPercent :: real
  M5ErrPercent :: real
  M15ErrPercent :: real
  Min_d :: uint64
  Max_d :: uint64
  Mean :: uint64
  SReqSize :: uint64
  SRespSize :: uint64

subsection \<open>Operations\<close>

definition isErr :: "Metric \<Rightarrow> bool" where
  "isErr m \<longleftrightarrow> StatusCode m \<ge> 400"

definition MaxUint64 :: uint64 where
  "MaxUint64 = - 1"

definition New :: HTTPStat where
  "New = \<lparr>count = 0,
          rate1 = NewEWMA1, rate5 = NewEWMA5, rate15 = NewEWMA15,
          errCount = 0,
          errRate1 = NewEWMA1, errRate5 = NewEWMA5, errRate15 = NewEWMA15,
          m1ErrPercent = 0, m5ErrPercent = 0, m15ErrPercent = 0,
          total_d = 0, min_d = MaxUint64, max_d = 0,
          reqSize = 0, respSize = 0\<rparr>"

text \<open>
  \<open>Duration.Milliseconds\<close> is the \<open>int64\<close> division by \<open>1e6\<close>, which in Go truncates
  towards zero; the result is then converted to \<open>uint64\<close>, which keeps the bits.
\<close>

definition Milliseconds :: "int64 \<Rightarrow> int" where
  "Milliseconds d = sgn (sint d) * (\<bar>sint d\<bar> div 1000000)"

definition duration_ms :: "Metric \<Rightarrow> uint64" where
  "duration_ms m = word_of_int (Milliseconds (Duration m))"

text \<open>
  \<open>Stat\<close>, one call run to its end before the next starts: each atomic addition is a word
  addition, and each compare-and-swap loop succeeds on its first round.
\<close>

definition Stat :: "Metric \<Rightarrow> HTTPStat \<Rightarrow> HTTPStat" where
  "Stat m hs =
     (let hs1 = hs\<lparr>count := count hs + 1,
                   rate1 := Update 1 (rate1 hs),
                   rate5 := Update 1 (rate5 hs),
                   rate15 := Update 1 (rate15 hs)\<rparr>;
          hs2 = (if isErr m
                 then hs1\<lparr>errCount := errCount hs1 + 1,
                          errRate1 := Update 1 (errRate1 hs1),
                          errRate5 := Update 1 (errRate5 hs1),
                          errRate15 := Update 1 (errRate15 hs1)\<rparr>
                 else hs1);
          duration = duration_ms m;
          hs3 = hs2\<lparr>total_d := total_d hs2 + duration\<rparr>;
          hs4 = (if duration \<ge> min_d hs3 then hs3 else hs3\<lparr>min_d := duration\<rparr>);
          hs5 = (if duration \<le> max_d hs4 then hs4 else hs4\<lparr>max_d := duration\<rparr>)
      in hs5\<lparr>reqSize := reqSize hs5 + ReqSize m,
             respSize := respSize hs5 + RespSize m\<rparr>)"

text \<open>\<open>Status\<close> ticks the six averages and returns the snapshot with the new state.\<close>

definition Status :: "HTTPStat \<Rightarrow> Status \<times> HTTPStat" where
  "Status hs0 =
     (let hs = hs0\<lparr>rate1 := Tick (rate1 hs0),
                   rate5 := Tick (rate5 hs0),
                   rate15 := Tick (rate15 hs0),
                   errRate1 := Tick (errRate1 hs0),
                   errRate5 := Tick (errRate5 hs0),
                   errRate15 := Tick (errRate15 hs0)\<rparr>;
          m1 = Rate (rate1 hs); m5 = Rate (rate5 hs); m15 = Rate (rate15 hs);
          m1Err = Rate (errRate1 hs); m5Err = Rate (errRate5 hs);
          m15Err = Rate (errRate15 hs);
          m1ErrPercent0 = 0; m5ErrPercent = 0; m15ErrPercent = 0;
          m1ErrPercent1 = (if m1 > 0 then m1Err / m1 else m1ErrPercent0);
          m1ErrPercent2 = (if m5 > 0 then m5Err / m5 else m1ErrPercent1);
          m1ErrPercent3 = (if m15 > 0 then m15Err / m15 else m1ErrPercent2);
          mean = (if count hs > 0 then total_d hs div count hs else 0);
          min = (if count hs > 0 then min_d hs else 0)
      in (\<lparr>Count = count hs, M1 = m1, M5 = m5, M15 = m15,
           ErrCount = errCount hs, M1Err = m1Err, M5Err = m5Err, M15Err = m15Err,
           M1ErrPercent = m1ErrPercent3,
           M5ErrPercent = m5ErrPercent,
           M15ErrPercent = m15ErrPercent,
           Min_d = min, Max_d = max_d hs, Mean = mean,
           SReqSize = reqSize hs, SRespSize = respSize hs\<rparr>, hs))"

text \<open>A run of sequential \<open>Stat\<close> calls on a fresh \<open>HTTPStat\<close>, in the order of the list.\<close>

definition stat_all :: "Metric list \<Rightarrow> HTTPStat" where
  "stat_all ms = foldl (\<lambda>hs m. Stat m hs) New ms"

section \<open>The pipeline (pkg/object/pipeline)\<close>

subsection \<open>Constants and data\<close>

definition builtInFilterEnd :: string where
  "builtInFilterEnd = ''END''"

definition defaultRequest :: string where
  "defaultRequest = ''Default''"

definition defaultResponse :: string where
  "defaultResponse = ''Default''"

definition isBuiltInFilter :: "string \<Rightarrow> bool" where
  "isBuiltInFilter name \<longleftrightarrow> name = builtInFilterEnd"

text \<open>
  A \<open>Filter\<close> value of the Go code is a pointer to a filter instance: here a reference
  (a natural number), \<open>None\<close> for nil. The Go map \<open>JumpIf\<close> is an association list: the
  order of the list is the order in which \<open>range\<close> happens to visit the entries, and a
  lookup of a missing key gives the empty string.
\<close>

type_synonym Filter = nat

record FlowNode =
  Filter :: string
  RequestID :: string
  ResponseID :: string
  UseRequest :: string
  JumpIf :: "(string \<times> string) list"
  filter_b :: "Filter option"

text \<open>
  \<open>Filters\<close> holds the raw filter entries as they come from YAML; their type \<open>'r\<close> is
  left open, and \<open>NewFilterSpec\<close> (package code outside this development) is a parameter
  of every function that calls it: it returns an error or the \<open>FilterSpec\<close> of one entry.
  Of a \<open>FilterSpec\<close> the code reads \<open>Name()\<close> and \<open>Kind()\<close> and writes \<open>pipeline\<close>.
\<close>

record 'r Spec =
  Flow :: "FlowNode list"
  Filters :: "'r list"

record FilterSpec =
  spec_Name :: string
  spec_Kind :: string
  pipeline :: string

record FilterStat =
  Name :: string
  Kind :: string
  Result :: string
  FDuration :: int

text \<open>The values a panic of this package can carry.\<close>

datatype panic =
    SpecError string
  | BuiltInName string
  | FilterNotFound string
  | ResultNotIn string string "string list"
  | TargetNotFound string string
  | RequestNotFound string string
  | KindNotFound string
  | NilMapAssignment
  | NilDereference

subsection \<open>Validate\<close>

text \<open>
  \<open>QueryFilterRegistry\<close> is a parameter \<open>reg\<close>: it maps a kind to the \<open>Results()\<close> of its
  registered root instance, \<open>None\<close> when the kind is not registered (calling \<open>Results\<close> on
  the nil instance panics). Every panic inside \<open>Validate\<close> is recovered and returned as an
  error that pairs \<open>errPrefix\<close> with the panic value; \<open>None\<close> is the nil error.
\<close>

text \<open>
  Modelled from the spec: \<open>StrInSlice\<close> of package stringtool is not in this development.
  The validator asserts with it that a result is in the declared result set of the kind:
  membership in a slice of strings.
\<close>

definition StrInSlice :: "string \<Rightarrow> string list \<Rightarrow> bool" where
  "StrInSlice s l \<longleftrightarrow> s \<in> set l"

fun validate_filter_specs ::
  "('r \<Rightarrow> string + FilterSpec) \<Rightarrow> 'r list \<Rightarrow> (string \<rightharpoonup> FilterSpec) \<Rightarrow>
   panic + (string \<rightharpoonup> FilterSpec)" where
  "validate_filter_specs nfs [] specs = Inr specs"
| "validate_filter_specs nfs (f # fs) specs =
     (case nfs f of
        Inl err \<Rightarrow> Inl (SpecError err)
      | Inr spec \<Rightarrow>
          (let name = spec_Name spec
           in if isBuiltInFilter name then Inl (BuiltInName name)
              else validate_filter_specs nfs fs (specs(name \<mapsto> spec))))"

fun validate_jumpIf ::
  "string \<Rightarrow> string list \<Rightarrow> (string \<Rightarrow> bool) \<Rightarrow> (string \<times> string) list \<Rightarrow> panic option" where
  "validate_jumpIf name results validNames [] = None"
| "validate_jumpIf name results validNames ((result, target) # rest) =
     (if \<not> StrInSlice result results then Some (ResultNotIn name result results)
      else if \<not> validNames target then Some (TargetNotFound name target)
      else validate_jumpIf name results validNames rest)"

text \<open>The nodes are given in the order the loop visits them: from the last to the first.\<close>

fun validate_jumpIfs ::
  "(string \<Rightarrow> string list option) \<Rightarrow> (string \<rightharpoonup> FilterSpec) \<Rightarrow> FlowNode list \<Rightarrow>
   (string \<Rightarrow> bool) \<Rightarrow> panic option" where
  "validate_jumpIfs reg specs [] validNames = None"
| "validate_jumpIfs reg specs (node # nodes) validNames =
     (if Filter node = builtInFilterEnd then validate_jumpIfs reg specs nodes validNames
      else case specs (Filter node) of
        None \<Rightarrow> Some (FilterNotFound (Filter node))
      | Some spec \<Rightarrow>
          (case reg (spec_Kind spec) of
             None \<Rightarrow> Some NilDereference
           | Some results \<Rightarrow>
               (case validate_jumpIf (Filter node) results validNames (JumpIf node) of
                  Some r \<Rightarrow> Some r
                | None \<Rightarrow>
                    validate_jumpIfs reg specs nodes (validNames(Filter node := True)))))"

fun validate_requestIDs :: "FlowNode list \<Rightarrow> (string \<Rightarrow> bool) \<Rightarrow> panic option" where
  "validate_requestIDs [] validNames = None"
| "validate_requestIDs (node # nodes) validNames =
     (if UseRequest node \<noteq> [] \<and> \<not> validNames (UseRequest node)
      then Some (RequestNotFound (Filter node) (UseRequest node))
      else validate_requestIDs nodes
             (if RequestID node \<noteq> [] then validNames(RequestID node := True)
              else validNames))"

definition Validate ::
  "('r \<Rightarrow> string + FilterSpec) \<Rightarrow> (string \<Rightarrow> string list option) \<Rightarrow> 'r Spec \<Rightarrow>
   (string \<times> panic) option" where
  "Validate nfs reg s =
     (case validate_filter_specs nfs (Filters s) Map.empty of
        Inl r \<Rightarrow> Some (''filters'', r)
      | Inr specs \<Rightarrow>
          (case validate_jumpIfs reg specs (rev (Flow s))
                  ((\<lambda>_. False)(builtInFilterEnd := True)) of
             Some r \<Rightarrow> Some (''flow'', r)
           | None \<Rightarrow>
               (case validate_requestIDs (Flow s) ((\<lambda>_. False)(defaultRequest := True)) of
                  Some r \<Rightarrow> Some (''flow'', r)
                | None \<Rightarrow> None)))"

subsection \<open>serializeStats\<close>

text \<open>
  \<open>Duration.String\<close> of the Go library is the parameter \<open>ds\<close>. The loop carries the index
  \<open>i\<close> and the contents \<open>sb\<close> of the string builder.
\<close>

fun serialize_loop :: "(int \<Rightarrow> string) \<Rightarrow> FilterStat list \<Rightarrow> nat \<Rightarrow> string \<Rightarrow> string" where
  "serialize_loop ds [] i sb = sb"
| "serialize_loop ds (stat # rest) i sb =
     (let sb1 = (if i > 0 then sb @ ''->'' else sb);
          sb2 = sb1 @ Name stat;
          sb3 = sb2 @ ''('';
          sb4 = (if Result stat \<noteq> [] then sb3 @ Result stat @ '','' else sb3);
          sb5 = sb4 @ ds (FDuration stat);
          sb6 = sb5 @ '')''
      in serialize_loop ds rest (Suc i) sb6)"

definition serializeStats :: "(int \<Rightarrow> string) \<Rightarrow> FilterStat list \<Rightarrow> string" where
  "serializeStats ds stats =
     (if length stats = 0 then ''pipeline: <empty>''
      else serialize_loop ds stats 0 ''pipeline: '')"

subsection \<open>Building a generation: Init, Inherit, reload, Close\<close>

text \<open>
  The calls that the pipeline makes on the \<open>Filter\<close> interface while a generation is
  built or closed are recorded, in order, in \<open>calls\<close>; what a filter does inside such a
  call is its own business and has no influence on \<open>reload\<close>. \<open>objects\<close> lists the kind
  of every filter instance allocated so far: the reference of an instance is its index.
\<close>

datatype call =
    FilterInit Filter FilterSpec
  | FilterInherit Filter FilterSpec Filter
  | FilterClose Filter

record lifecycle =
  objects :: "string list"
  calls :: "call list"

text \<open>
  Of the supervisor's spec the pipeline reads \<open>Name()\<close> and \<open>ObjectSpec()\<close>. The fields of
  a \<open>Pipeline\<close> are pointers and a map: \<open>None\<close> is nil, as in the zero value that the
  supervisor allocates. The map \<open>filters\<close> is an association list; the order of the list
  is the order in which \<open>range\<close> visits it.
\<close>

record 'r SuperSpec =
  super_Name :: string
  ObjectSpec :: "'r Spec"

record 'r Pipeline =
  superSpec :: "'r SuperSpec option"
  spec :: "'r Spec option"
  filters :: "(string \<times> Filter) list option"
  flow :: "FlowNode list"

definition zero_Pipeline :: "'r Pipeline" where
  "zero_Pipeline = \<lparr>superSpec = None, spec = None, filters = None, flow = []\<rparr>"

text \<open>Reading a Go map, nil or not; writing one entry (a nil map panics).\<close>

definition map_get :: "(string \<times> 'v) list option \<Rightarrow> string \<Rightarrow> 'v option" where
  "map_get m k = (case m of None \<Rightarrow> None | Some al \<Rightarrow> map_of al k)"

fun alist_put :: "string \<Rightarrow> 'v \<Rightarrow> (string \<times> 'v) list \<Rightarrow> (string \<times> 'v) list" where
  "alist_put k v [] = [(k, v)]"
| "alist_put k v ((k', v') # al) =
     (if k' = k then (k, v) # al else (k', v') # alist_put k v al)"

definition new_filter :: "string \<Rightarrow> lifecycle \<Rightarrow> Filter \<times> lifecycle" where
  "new_filter kind st = (length (objects st), st\<lparr>objects := objects st @ [kind]\<rparr>)"

text \<open>First loop of \<open>reload\<close>: create the new filters.\<close>

fun create_filters ::
  "('r \<Rightarrow> string + FilterSpec) \<Rightarrow> (string \<Rightarrow> string list option) \<Rightarrow> string \<Rightarrow> 'r list \<Rightarrow>
   Filter list \<Rightarrow> FilterSpec list \<Rightarrow> lifecycle \<Rightarrow>
   (panic + Filter list \<times> FilterSpec list) \<times> lifecycle" where
  "create_filters nfs reg pipelineName [] fs specs st = (Inr (fs, specs), st)"
| "create_filters nfs reg pipelineName (rawSpec # rest) fs specs st =
     (case nfs rawSpec of
        Inl err \<Rightarrow> (Inl (SpecError err), st)
      | Inr spec0 \<Rightarrow>
          (case reg (spec_Kind spec0) of
             None \<Rightarrow> (Inl (KindNotFound (spec_Kind spec0)), st)
           | Some rootInst \<Rightarrow>
               (let fspec = spec0\<lparr>pipeline := pipelineName\<rparr>;
                    (flt, st1) = new_filter (spec_Kind spec0) st
                in create_filters nfs reg pipelineName rest
                     (fs @ [flt]) (specs @ [fspec]) st1)))"

text \<open>Second loop: initialize or inherit the new filters, and enter them in \<open>p.filters\<close>.\<close>

fun init_filters ::
  "'r Pipeline option \<Rightarrow> (Filter \<times> FilterSpec) list \<Rightarrow> (string \<times> Filter) list option \<Rightarrow>
   lifecycle \<Rightarrow> (panic + (string \<times> Filter) list option) \<times> lifecycle" where
  "init_filters previousGeneration [] pfilters st = (Inr pfilters, st)"
| "init_filters previousGeneration ((flt, fspec) # rest) pfilters st =
     (let prev = (case previousGeneration of
                    None \<Rightarrow> None
                  | Some pg \<Rightarrow> map_get (filters pg) (spec_Name fspec));
          st1 = (case prev of
                   None \<Rightarrow> st\<lparr>calls := calls st @ [FilterInit flt fspec]\<rparr>
                 | Some pf \<Rightarrow> st\<lparr>calls := calls st @ [FilterInherit flt fspec pf]\<rparr>)
      in case pfilters of
           None \<Rightarrow> (Inl NilMapAssignment, st1)
         | Some al \<Rightarrow>
             init_filters previousGeneration rest
               (Some (alist_put (spec_Name fspec) flt al)) st1)"

text \<open>Third and fourth loop: the default flow, and binding the instances to the nodes.\<close>

definition default_flow :: "FilterSpec list \<Rightarrow> FlowNode list" where
  "default_flow specs =
     map (\<lambda>spec. \<lparr>Filter = spec_Name spec, RequestID = [], ResponseID = [],
                  UseRequest = [], JumpIf = [], filter_b = None\<rparr>) specs"

definition bind_flow :: "(string \<times> Filter) list option \<Rightarrow> FlowNode list \<Rightarrow> FlowNode list" where
  "bind_flow pfilters fl =
     map (\<lambda>node. if Filter node \<noteq> builtInFilterEnd
                 then node\<lparr>filter_b := map_get pfilters (Filter node)\<rparr>
                 else node) fl"

text \<open>
  When the spec has a flow, the fourth loop writes into the nodes of that very slice, so
  the spec (which the supervisor's spec shares) sees the bound nodes too.
\<close>

definition reload ::
  "('r \<Rightarrow> string + FilterSpec) \<Rightarrow> (string \<Rightarrow> string list option) \<Rightarrow> 'r Pipeline option \<Rightarrow>
   'r Pipeline \<Rightarrow> lifecycle \<Rightarrow> (panic + 'r Pipeline) \<times> lifecycle" where
  "reload nfs reg previousGeneration p st =
     (case (superSpec p, spec p) of
        (Some ss, Some sp) \<Rightarrow>
          (case create_filters nfs reg (super_Name ss) (Filters sp) [] [] st of
             (Inl e, st1) \<Rightarrow> (Inl e, st1)
           | (Inr (fs, specs), st1) \<Rightarrow>
               (case init_filters previousGeneration (zip fs specs) (filters p) st1 of
                  (Inl e, st2) \<Rightarrow> (Inl e, st2)
                | (Inr pfilters, st2) \<Rightarrow>
                    (if length (Flow sp) = 0
                     then (Inr (p\<lparr>filters := pfilters,
                                  flow := bind_flow pfilters (default_flow specs)\<rparr>), st2)
                     else
                       (let fl = bind_flow pfilters (Flow sp);
                            sp' = sp\<lparr>Flow := fl\<rparr>
                        in (Inr (p\<lparr>superSpec := Some (ss\<lparr>ObjectSpec := sp'\<rparr>),
                                    spec := Some sp',
                                    filters := pfilters,
                                    flow := fl\<rparr>), st2)))))
      | _ \<Rightarrow> (Inl NilDereference, st))"

definition Init ::
  "('r \<Rightarrow> string + FilterSpec) \<Rightarrow> (string \<Rightarrow> string list option) \<Rightarrow> 'r SuperSpec \<Rightarrow>
   'r Pipeline \<Rightarrow> lifecycle \<Rightarrow> (panic + 'r Pipeline) \<times> lifecycle" where
  "Init nfs reg ss p st =
     reload nfs reg None (p\<lparr>superSpec := Some ss, spec := Some (ObjectSpec ss)\<rparr>) st"

definition Inherit ::
  "('r \<Rightarrow> string + FilterSpec) \<Rightarrow> (string \<Rightarrow> string list option) \<Rightarrow> 'r SuperSpec \<Rightarrow>
   'r Pipeline \<Rightarrow> 'r Pipeline \<Rightarrow> lifecycle \<Rightarrow> (panic + 'r Pipeline) \<times> lifecycle" where
  "Inherit nfs reg ss previousGeneration p st =
     reload nfs reg (Some previousGeneration)
       (p\<lparr>superSpec := Some ss, spec := Some (ObjectSpec ss)\<rparr>) st"

definition Close :: "'r Pipeline \<Rightarrow> lifecycle \<Rightarrow> lifecycle" where
  "Close p st =
     (case filters p of
        None \<Rightarrow> st
      | Some al \<Rightarrow> st\<lparr>calls := calls st @ map (\<lambda>(name, flt). FilterClose flt) al\<rparr>)"

text \<open>
  For the properties below: the instance of the previous generation that \<open>reload\<close> finds
  under a name, and the calls that \<open>reload\<close> makes on filters: \<open>Init\<close> on a new filter
  whose name the previous generation lacks, \<open>Inherit\<close> from the previous instance on one
  whose name it has.
\<close>

definition prev_filter :: "'r Pipeline option \<Rightarrow> string \<Rightarrow> Filter option" where
  "prev_filter previousGeneration name =
     (case previousGeneration of None \<Rightarrow> None | Some pg \<Rightarrow> map_get (filters pg) name)"

definition lifecycle_call :: "'r Pipeline option \<Rightarrow> call \<Rightarrow> bool" where
  "lifecycle_call pg c \<longleftrightarrow>
     (\<exists>f sp. c = FilterInit f sp \<and> prev_filter pg (spec_Name sp) = None) \<or>
     (\<exists>f sp pf. c = FilterInherit f sp pf \<and> prev_filter pg (spec_Name sp) = Some pf)"

subsection \<open>Handle\<close>

text \<open>
  A request is handled in a world \<open>'w\<close> that holds whatever the filters and the request
  context keep: the method \<open>Handle\<close> of a filter instance takes the world and returns its
  label with the new world. \<open>heap\<close> gives the instance behind a reference. Of the world
  the pipeline itself uses a clock, in nanoseconds, and the tags of the request context.
\<close>

record 'w FilterObj =
  fKind :: string
  fHandle :: "'w \<Rightarrow> string \<times> 'w"

record world =
  clock :: int
  tags :: "string list"

text \<open>
  Modelled from the spec: the clock of package fasttime and \<open>AddTag\<close> of the request
  context are not in this development. The engine timestamps the begin and the end of a
  filter with a monotonic clock: \<open>Now\<close> reads the clock, which filters may advance, and
  \<open>Since\<close> is the time elapsed on it. \<open>AddTag\<close> attaches one more tag to the context.
\<close>

definition Now :: "'a world_scheme \<Rightarrow> int" where
  "Now w = clock w"

definition Since :: "int \<Rightarrow> 'a world_scheme \<Rightarrow> int" where
  "Since start w = clock w - start"

definition AddTag :: "string \<Rightarrow> 'a world_scheme \<Rightarrow> 'a world_scheme" where
  "AddTag tag w = w\<lparr>tags := tags w @ [tag]\<rparr>"

definition jump_target :: "(string \<times> string) list \<Rightarrow> string \<Rightarrow> string" where
  "jump_target jumpIf result = (case map_of jumpIf result of None \<Rightarrow> [] | Some t \<Rightarrow> t)"

text \<open>
  The loop of \<open>Handle\<close> over the remaining nodes, with the variables \<open>result\<close>, \<open>next\<close>
  and \<open>stats\<close>. Calling \<open>Handle\<close> on a node whose filter is nil panics.
\<close>

fun handle_loop ::
  "(Filter \<Rightarrow> 'a world_scheme FilterObj) \<Rightarrow> FlowNode list \<Rightarrow> string \<Rightarrow> string \<Rightarrow>
   FilterStat list \<Rightarrow> 'a world_scheme \<Rightarrow>
   panic + string \<times> FilterStat list \<times> 'a world_scheme" where
  "handle_loop heap [] result next stats w = Inr (result, stats, w)"
| "handle_loop heap (node # rest) result next stats w =
     (if next \<noteq> [] \<and> Filter node \<noteq> next then handle_loop heap rest result next stats w
      else if Filter node = builtInFilterEnd then Inr (result, stats, w)
      else
        (let start = Now w
         in case filter_b node of
              None \<Rightarrow> Inl NilDereference
            | Some f \<Rightarrow>
                (let (result', w') = fHandle (heap f) w;
                     stats' = stats @ [\<lparr>Name = Filter node, Kind = fKind (heap f),
                                        Result = result', FDuration = Since start w'\<rparr>];
                     next' = (if result' \<noteq> [] then jump_target (JumpIf node) result'
                              else next)
                 in if next' = builtInFilterEnd then Inr (result', stats', w')
                    else handle_loop heap rest result' next' stats' w')))"

definition Handle ::
  "(Filter \<Rightarrow> 'a world_scheme FilterObj) \<Rightarrow> (int \<Rightarrow> string) \<Rightarrow> 'r Pipeline \<Rightarrow>
   'a world_scheme \<Rightarrow> panic + string \<times> 'a world_scheme" where
  "Handle heap ds p w =
     (case handle_loop heap (flow p) [] [] [] w of
        Inl e \<Rightarrow> Inl e
      | Inr (result, stats, w') \<Rightarrow> Inr (result, AddTag (serializeStats ds stats) w'))"

subsection \<open>The filters that a request invokes\<close>

text \<open>
  The invocations of a request as a specification, after the description of the request
  execution. The nodes are visited in the order of the flow; a node is skipped while a jump
  to another filter name is pending; a node \<open>END\<close> ends the request; otherwise the
  filter of the node is invoked, and a label that is not empty makes the node's \<open>jumpIf\<close>
  entry for it the pending jump, \<open>END\<close> ending the request. An invocation is recorded
  with its node, the instance, the label that the instance returned, and the world before
  and after the call. Nothing is invoked at a node whose filter is nil. The specification
  keeps neither the variable \<open>result\<close> nor the statistics of \<open>Handle\<close>; \<open>handle_loop\<close> is
  compared with it below.
\<close>

record 'w invocation =
  inv_node :: FlowNode
  inv_filter :: Filter
  inv_label :: string
  inv_before :: 'w
  inv_after :: 'w

fun invoked ::
  "(Filter \<Rightarrow> 'a world_scheme FilterObj) \<Rightarrow> FlowNode list \<Rightarrow> string \<Rightarrow> 'a world_scheme \<Rightarrow>
   'a world_scheme invocation list" where
  "invoked heap [] next w = []"
| "invoked heap (node # rest) next w =
     (if next \<noteq> [] \<and> Filter node \<noteq> next then invoked heap rest next w
      else if Filter node = builtInFilterEnd then []
      else case filter_b node of
        None \<Rightarrow> []
      | Some f \<Rightarrow>
          (let (label, w') = fHandle (heap f) w;
               next' = (if label \<noteq> [] then jump_target (JumpIf node) label else next)
           in \<lparr>inv_node = node, inv_filter = f, inv_label = label,
                inv_before = w, inv_after = w'\<rparr> #
              (if next' = builtInFilterEnd then [] else invoked heap rest next' w')))"

text \<open>The statistics entry that an invocation should leave.\<close>

definition stat_of ::
  "(Filter \<Rightarrow> 'a world_scheme FilterObj) \<Rightarrow> 'a world_scheme invocation \<Rightarrow> FilterStat" where
  "stat_of heap i =
     \<lparr>Name = Filter (inv_node i), Kind = fKind (heap (inv_filter i)), Result = inv_label i,
      FDuration = Since (Now (inv_before i)) (inv_after i)\<rparr>"

subsection \<open>The format of the tag\<close>

text \<open>
  The tag as a specification: one entry per recorded filter, \<open>name(result,duration)\<close>, or
  \<open>name(duration)\<close> when the result label is empty, the entries joined by an arrow.
  \<open>serializeStats\<close> is compared with it below.
\<close>

definition stat_entry :: "(int \<Rightarrow> string) \<Rightarrow> FilterStat \<Rightarrow> string" where
  "stat_entry ds s =
     Name s @ ''('' @ (if Result s = [] then [] else Result s @ '','') @ ds (FDuration s) @ '')''"

fun join_arrow :: "string list \<Rightarrow> string" where
  "join_arrow [] = []"
| "join_arrow [x] = x"
| "join_arrow (x # y # ys) = x @ ''->'' @ join_arrow (y # ys)"

section \<open>Example inputs\<close>

subsection \<open>Filters and flows\<close>

text \<open>
  Four filter instances. The validator always answers \<open>skip\<close> and takes five
  milliseconds; the adaptor answers the empty label; the limiter answers the empty label
  on its first request and \<open>again\<close> afterwards, counting its requests in \<open>seen\<close>; the
  proxy answers \<open>done\<close>.
\<close>

record counting_world = world +
  seen :: nat

definition example_heap :: "Filter \<Rightarrow> counting_world FilterObj" where
  "example_heap f =
     (if f = 0 then \<lparr>fKind = ''Validator'',
                      fHandle = (\<lambda>w. (''skip'', w\<lparr>clock := clock w + 5000000\<rparr>))\<rparr>
      else if f = 1 then \<lparr>fKind = ''Adaptor'', fHandle = (\<lambda>w. ([], w))\<rparr>
      else if f = 2 then \<lparr>fKind = ''Limiter'',
                           fHandle = (\<lambda>w. (if seen w = 0 then [] else ''again'',
                                               w\<lparr>seen := seen w + 1\<rparr>))\<rparr>
      else \<lparr>fKind = ''Proxy'', fHandle = (\<lambda>w. (''done'', w))\<rparr>)"

definition example_ds :: "int \<Rightarrow> string" where
  "example_ds d = (if d = 0 then ''0s'' else ''5ms'')"

definition world0 :: counting_world where
  "world0 = \<lparr>clock = 0, tags = [], seen = 0\<rparr>"

definition flow_node :: "string \<Rightarrow> (string \<times> string) list \<Rightarrow> Filter \<Rightarrow> FlowNode" where
  "flow_node name jumps f =
     \<lparr>Filter = name, RequestID = [], ResponseID = [], UseRequest = [],
      JumpIf = jumps, filter_b = Some f\<rparr>"

definition pipeline_of :: "FlowNode list \<Rightarrow> unit Pipeline" where
  "pipeline_of fl = zero_Pipeline\<lparr>flow := fl\<rparr>"

text \<open>A flow of the adaptor alone.\<close>

definition single_flow :: "FlowNode list" where
  "single_flow = [flow_node ''B'' [] 1]"

text \<open>The validator jumps over the adaptor to the limiter; the proxy follows.\<close>

definition jump_flow :: "FlowNode list" where
  "jump_flow =
     [flow_node ''A'' [(''skip'', ''C'')] 0, flow_node ''B'' [] 1,
      flow_node ''C'' [] 2, flow_node ''D'' [] 3]"

text \<open>The same jump, in a flow that names the limiter twice.\<close>

definition repeat_flow :: "FlowNode list" where
  "repeat_flow =
     [flow_node ''A'' [(''skip'', ''C'')] 0, flow_node ''C'' [] 2,
      flow_node ''C'' [] 2, flow_node ''D'' [] 3]"

text \<open>The adaptor, then the proxy.\<close>

definition linear_flow :: "FlowNode list" where
  "linear_flow = [flow_node ''B'' [] 1, flow_node ''D'' [] 3]"

text \<open>The adaptor, then the validator, whose label \<open>skip\<close> jumps to \<open>END\<close>; the proxy is not reached.\<close>

definition short_circuit_flow :: "FlowNode list" where
  "short_circuit_flow =
     [flow_node ''B'' [] 1, flow_node ''A'' [(''skip'', ''END'')] 0, flow_node ''D'' [] 3]"

subsection \<open>Specs and generations\<close>

text \<open>
  In the examples a raw filter entry is the \<open>FilterSpec\<close> it parses to, and parsing fails
  on an empty name. The registry knows four kinds.
\<close>

definition spec_node :: "string \<Rightarrow> (string \<times> string) list \<Rightarrow> FlowNode" where
  "spec_node name jumps =
     \<lparr>Filter = name, RequestID = [], ResponseID = [], UseRequest = [],
      JumpIf = jumps, filter_b = None\<rparr>"

definition example_nfs :: "FilterSpec \<Rightarrow> string + FilterSpec" where
  "example_nfs raw = (if spec_Name raw = [] then Inl ''name is required'' else Inr raw)"

definition example_reg :: "string \<Rightarrow> string list option" where
  "example_reg kind =
     (if kind = ''Validator'' then Some [''skip'']
      else if kind = ''Adaptor'' then Some []
      else if kind = ''Limiter'' then Some [''again'', ''retry'']
      else if kind = ''Proxy'' then Some [''done'']
      else None)"

definition filter_entry :: "string \<Rightarrow> string \<Rightarrow> FilterSpec" where
  "filter_entry name kind = \<lparr>spec_Name = name, spec_Kind = kind, pipeline = []\<rparr>"

definition example_filters :: "FilterSpec list" where
  "example_filters =
     [filter_entry ''A'' ''Validator'', filter_entry ''B'' ''Adaptor'',
      filter_entry ''C'' ''Limiter'', filter_entry ''D'' ''Proxy'']"

definition backward_spec :: "FilterSpec Spec" where
  "backward_spec =
     \<lparr>Flow = [spec_node ''A'' [], spec_node ''C'' [(''retry'', ''A'')]],
      Filters = example_filters\<rparr>"

definition unknown_result_spec :: "FilterSpec Spec" where
  "unknown_result_spec =
     \<lparr>Flow = [spec_node ''A'' [(''timeout'', ''END'')], spec_node ''C'' []],
      Filters = example_filters\<rparr>"

definition end_jump_spec :: "FilterSpec Spec" where
  "end_jump_spec =
     \<lparr>Flow = [spec_node ''A'' [], spec_node ''END'' [(''retry'', ''nowhere'')]],
      Filters = example_filters\<rparr>"

definition duplicate_spec :: "FilterSpec Spec" where
  "duplicate_spec =
     \<lparr>Flow = [spec_node ''A'' [(''done'', ''END'')]],
      Filters = [filter_entry ''A'' ''Validator'', filter_entry ''A'' ''Proxy'']\<rparr>"

definition made_Pipeline :: "FilterSpec Pipeline" where
  "made_Pipeline = zero_Pipeline\<lparr>filters := Some []\<rparr>"

definition prev_generation :: "FilterSpec Pipeline" where
  "prev_generation = zero_Pipeline\<lparr>filters := Some [(''old'', 0), (''keep'', 1)]\<rparr>"

definition prev_lifecycle :: lifecycle where
  "prev_lifecycle = \<lparr>objects = [''Proxy'', ''Limiter''], calls = []\<rparr>"

definition empty_super :: "FilterSpec SuperSpec" where
  "empty_super = \<lparr>super_Name = ''demo'', ObjectSpec = \<lparr>Flow = [], Filters = []\<rparr>\<rparr>"

definition keep_super :: "FilterSpec SuperSpec" where
  "keep_super =
     \<lparr>super_Name = ''demo'',
      ObjectSpec = \<lparr>Flow = [], Filters = [filter_entry ''keep'' ''Limiter'']\<rparr>\<rparr>"

text \<open>A new spec that keeps the filter \<open>keep\<close>, adds \<open>fresh\<close> and drops \<open>old\<close>.\<close>

definition mixed_super :: "FilterSpec SuperSpec" where
  "mixed_super =
     \<lparr>super_Name = ''demo'',
      ObjectSpec = \<lparr>Flow = [], Filters = [filter_entry ''keep'' ''Limiter'',
                                          filter_entry ''fresh'' ''Proxy'']\<rparr>\<rparr>"

definition repeat_spec :: "FilterSpec Spec" where
  "repeat_spec =
     \<lparr>Flow = [spec_node ''A'' [(''skip'', ''C'')], spec_node ''C'' [],
              spec_node ''C'' [], spec_node ''D'' []],
      Filters = example_filters\<rparr>"

subsection \<open>Metrics\<close>

text \<open>Three requests of 3, 7 and 1 milliseconds, two of them errors.\<close>

definition example_metrics :: "Metric list" where
  "example_metrics =
     [\<lparr>StatusCode = 200, Duration = 3000000, ReqSize = 10, RespSize = 20\<rparr>,
      \<lparr>StatusCode = 500, Duration = 7000000, ReqSize = 1, RespSize = 2\<rparr>,
      \<lparr>StatusCode = 404, Duration = 1000000, ReqSize = 0, RespSize = 0\<rparr>]"

text \<open>One failed request of one millisecond.\<close>

definition one_error :: "Metric list" where
  "one_error = [\<lparr>StatusCode = 500, Duration = 1000000, ReqSize = 0, RespSize = 0\<rparr>]"

text \<open>Two requests whose measured duration is minus one millisecond.\<close>

definition negative_metrics :: "Metric list" where
  "negative_metrics =
     [\<lparr>StatusCode = 200, Duration = - 1000000, ReqSize = 0, RespSize = 0\<rparr>,
      \<lparr>StatusCode = 200, Duration = - 1000000, ReqSize = 0, RespSize = 0\<rparr>]"

section \<open>Properties of the HTTP statistics\<close>

lemma count_Stat: "count (Stat m hs) = count hs + 1"
  by (simp add: Stat_def Let_def)

lemma errCount_Stat: "errCount (Stat m hs) = errCount hs + (if isErr m then 1 else 0)"
  by (simp add: Stat_def Let_def)

lemma count_foldl_Stat:
  "count (foldl (\<lambda>hs m. Stat m hs) hs ms) = count hs + of_nat (length ms)"
  by (induction ms arbitrary: hs) (simp_all add: count_Stat)

lemma errCount_foldl_Stat:
  "errCount (foldl (\<lambda>hs m. Stat m hs) hs ms) = errCount hs + of_nat (length (filter isErr ms))"
  by (induction ms arbitrary: hs) (simp_all add: errCount_Stat)

lemma Count_Status: "Count (fst (Status hs)) = count hs"
  by (simp add: Status_def Let_def)

lemma ErrCount_Status: "ErrCount (fst (Status hs)) = errCount hs"
  by (simp add: Status_def Let_def)

subsection \<open>Counting\<close>

text \<open>
  Claim C6. After \<open>N\<close> sequential \<open>Stat\<close> calls on a fresh \<open>HTTPStat\<close>, a \<open>Status\<close> taken at
  the end reports \<open>Count = N\<close> and \<open>ErrCount\<close> equal to the number of calls whose metric has
  \<open>StatusCode \<ge> 400\<close>. Both fields are \<open>uint64\<close>: they hold \<open>N\<close> and the number of errors
  as 64-bit words, and read back as exactly these numbers for every \<open>N\<close> that a \<open>uint64\<close>
  can hold.
\<close>

theorem Stat_counts:
  "Count (fst (Status (stat_all ms))) = of_nat (length ms) \<and>
   ErrCount (fst (Status (stat_all ms))) = of_nat (length (filter isErr ms)) \<and>
   (length ms < 2 ^ 64 \<longrightarrow>
      unat (Count (fst (Status (stat_all ms)))) = length ms \<and>
      unat (ErrCount (fst (Status (stat_all ms)))) = length (filter isErr ms))"
proof -
  have c: "Count (fst (Status (stat_all ms))) = of_nat (length ms)"
    by (simp add: Count_Status stat_all_def count_foldl_Stat New_def)
  have e: "ErrCount (fst (Status (stat_all ms))) = of_nat (length (filter isErr ms))"
    by (simp add: ErrCount_Status stat_all_def errCount_foldl_Stat New_def)
  have le: "length (filter isErr ms) \<le> length ms"
    by simp
  show ?thesis
  proof (intro conjI impI)
    assume b: "length ms < 2 ^ 64"
    show "unat (Count (fst (Status (stat_all ms)))) = length ms"
      using b by (simp add: c unat_of_nat)
    show "unat (ErrCount (fst (Status (stat_all ms)))) = length (filter isErr ms)"
    proof -
      from b le have "length (filter isErr ms) < 2 ^ 64"
        by (rule le_less_trans [rotated])
      then show ?thesis by (simp add: e unat_of_nat)
    qed
  qed (rule c, rule e)
qed

theorem Stat_counts_witness:
  "length example_metrics < 2 ^ 64 \<and>
   unat (Count (fst (Status (stat_all example_metrics)))) = 3 \<and>
   unat (ErrCount (fst (Status (stat_all example_metrics)))) = 2"
  using Stat_counts [of example_metrics]
  by (simp add: example_metrics_def isErr_def)

subsection \<open>Error percentages\<close>

lemma Rate_first_Tick: "Rate (Tick (Update 1 (NewEWMA a))) = 1 / 5"
  by (simp add: NewEWMA_def Update_def Tick_def Rate_def)

lemma rates_one_Stat:
  "Rate (Tick (rate5 (Stat m New))) = 1 / 5"
  "Rate (Tick (rate15 (Stat m New))) = 1 / 5"
  "isErr m \<Longrightarrow> Rate (Tick (errRate5 (Stat m New))) = 1 / 5"
  "isErr m \<Longrightarrow> Rate (Tick (errRate15 (Stat m New))) = 1 / 5"
  by (simp_all add: Stat_def New_def Let_def NewEWMA5_def NewEWMA15_def Rate_first_Tick)

lemma Status_rates:
  "M5 (fst (Status hs)) = Rate (Tick (rate5 hs))"
  "M15 (fst (Status hs)) = Rate (Tick (rate15 hs))"
  "M5Err (fst (Status hs)) = Rate (Tick (errRate5 hs))"
  "M15Err (fst (Status hs)) = Rate (Tick (errRate15 hs))"
  by (simp_all add: Status_def Let_def)

text \<open>
  Whatever the state, \<open>Status\<close> leaves the 5- and 15-minute percentages at zero, and the
  1-minute field holds the percentage of the last window whose rate is positive.
\<close>

lemma Status_ErrPercent_fields:
  "M5ErrPercent (fst (Status hs)) = 0 \<and> M15ErrPercent (fst (Status hs)) = 0 \<and>
   M1ErrPercent (fst (Status hs)) =
     (if M15 (fst (Status hs)) > 0 then M15Err (fst (Status hs)) / M15 (fst (Status hs))
      else if M5 (fst (Status hs)) > 0 then M5Err (fst (Status hs)) / M5 (fst (Status hs))
      else if M1 (fst (Status hs)) > 0 then M1Err (fst (Status hs)) / M1 (fst (Status hs))
      else 0)"
  by (simp add: Status_def Let_def)

text \<open>
  Claim C1. Each error-percentage field of a snapshot is computed from its own window:
  \<open>M5ErrPercent = m5Err / m5\<close> when \<open>m5 > 0\<close>, and so on. The code assigns all three
  quotients to the 1-minute variable. After one failed request on a fresh \<open>HTTPStat\<close> the
  5- and 15-minute rates and error rates are all \<open>1/5\<close>, so both percentages should be
  1; the snapshot reports 0 for both.
\<close>

theorem Status_ErrPercent_one_error:
  "M5 (fst (Status (stat_all one_error))) = 1 / 5 \<and>
   M5Err (fst (Status (stat_all one_error))) = 1 / 5 \<and>
   M5ErrPercent (fst (Status (stat_all one_error))) = 0 \<and>
   M15 (fst (Status (stat_all one_error))) = 1 / 5 \<and>
   M15Err (fst (Status (stat_all one_error))) = 1 / 5 \<and>
   M15ErrPercent (fst (Status (stat_all one_error))) = 0"
proof -
  have "M5ErrPercent (fst (Status (stat_all one_error))) = 0"
    "M15ErrPercent (fst (Status (stat_all one_error))) = 0"
    using Status_ErrPercent_fields [of "stat_all one_error"] by simp_all
  then show ?thesis
    by (simp add: stat_all_def one_error_def Status_rates rates_one_Stat isErr_def)
qed

subsection \<open>Minimum, mean and maximum\<close>

lemma total_Stat: "total_d (Stat m hs) = total_d hs + duration_ms m"
  by (simp add: Stat_def Let_def)

lemma min_d_Stat: "min_d (Stat m hs) = min (min_d hs) (duration_ms m)"
  by (simp add: Stat_def Let_def min_def)

lemma max_d_Stat: "max_d (Stat m hs) = max (max_d hs) (duration_ms m)"
  by (auto simp add: Stat_def Let_def max_def)

lemma total_foldl_Stat:
  "total_d (foldl (\<lambda>hs m. Stat m hs) hs ms) = total_d hs + sum_list (map duration_ms ms)"
  by (induction ms arbitrary: hs) (simp_all add: total_Stat add.assoc)

lemma min_d_foldl_Stat_le:
  "min_d (foldl (\<lambda>hs m. Stat m hs) hs ms) \<le> min_d hs \<and>
   (\<forall>m \<in> set ms. min_d (foldl (\<lambda>hs m. Stat m hs) hs ms) \<le> duration_ms m)"
proof (induction ms arbitrary: hs)
  case Nil
  show ?case by simp
next
  case (Cons a ms)
  have 1: "min_d (foldl (\<lambda>hs m. Stat m hs) (Stat a hs) ms) \<le> min_d (Stat a hs)"
    and 2: "\<forall>m \<in> set ms. min_d (foldl (\<lambda>hs m. Stat m hs) (Stat a hs) ms) \<le> duration_ms m"
    using Cons.IH [of "Stat a hs"] by simp_all
  have 3: "min_d (Stat a hs) \<le> min_d hs" "min_d (Stat a hs) \<le> duration_ms a"
    by (simp_all add: min_d_Stat)
  show ?case using 1 2 3 by (auto intro: order_trans)
qed

lemma max_d_foldl_Stat_ge:
  "max_d hs \<le> max_d (foldl (\<lambda>hs m. Stat m hs) hs ms) \<and>
   (\<forall>m \<in> set ms. duration_ms m \<le> max_d (foldl (\<lambda>hs m. Stat m hs) hs ms))"
proof (induction ms arbitrary: hs)
  case Nil
  show ?case by simp
next
  case (Cons a ms)
  have 1: "max_d (Stat a hs) \<le> max_d (foldl (\<lambda>hs m. Stat m hs) (Stat a hs) ms)"
    and 2: "\<forall>m \<in> set ms. duration_ms m \<le> max_d (foldl (\<lambda>hs m. Stat m hs) (Stat a hs) ms)"
    using Cons.IH [of "Stat a hs"] by simp_all
  have 3: "max_d hs \<le> max_d (Stat a hs)" "duration_ms a \<le> max_d (Stat a hs)"
    by (simp_all add: max_d_Stat)
  show ?case using 1 2 3 by (auto intro: order_trans)
qed

text \<open>A sum of 64-bit words that does not wrap around is the sum of their values.\<close>

lemma unat_sum_list_no_wrap:
  "sum_list (map (\<lambda>x. unat (f x)) xs) < 2 ^ 64 \<Longrightarrow>
   unat (sum_list (map f xs) :: 64 word) = sum_list (map (\<lambda>x. unat (f x)) xs)"
proof (induction xs)
  case Nil
  show ?case by simp
next
  case (Cons a xs)
  then have "sum_list (map (\<lambda>x. unat (f x)) xs) < 2 ^ 64"
    by simp
  with Cons.IH have ih: "unat (sum_list (map f xs)) = sum_list (map (\<lambda>x. unat (f x)) xs)"
    by simp
  have "unat (f a + sum_list (map f xs)) = (unat (f a) + unat (sum_list (map f xs))) mod 2 ^ 64"
    by (simp add: unat_word_ariths)
  also have "\<dots> = unat (f a) + sum_list (map (\<lambda>x. unat (f x)) xs)"
    using Cons.prems by (simp add: ih)
  finally show ?case by simp
qed

lemma sum_list_bounds:
  fixes g :: "'a \<Rightarrow> nat"
  assumes "\<forall>x \<in> set xs. lo \<le> g x \<and> g x \<le> hi"
  shows "length xs * lo \<le> sum_list (map g xs) \<and> sum_list (map g xs) \<le> length xs * hi"
  using assms by (induction xs) (auto simp: add_mono)

lemma div_between:
  fixes s n lo hi :: nat
  assumes "0 < n" "n * lo \<le> s" "s \<le> n * hi"
  shows "lo \<le> s div n \<and> s div n \<le> hi"
proof
  show "lo \<le> s div n"
    using assms by (simp add: less_eq_div_iff_mult_less_eq mult.commute)
  have "s div n \<le> (n * hi) div n"
    using assms(3) by (rule div_le_mono)
  then show "s div n \<le> hi"
    using assms(1) by simp
qed

text \<open>
  Claim C7, as amended. For every sequence of fewer than \<open>2 ^ 64\<close> sequential \<open>Stat\<close> calls
  whose millisecond durations, as the \<open>uint64\<close> values that \<open>Stat\<close> adds up, sum to less
  than \<open>2 ^ 64\<close>, a subsequent \<open>Status\<close> has \<open>Min \<le> Mean \<le> Max\<close> when \<open>Count > 0\<close>,
  with \<open>Mean\<close> the floor of the total over the count, and \<open>Min = 0\<close> and \<open>Mean = 0\<close> when
  \<open>Count = 0\<close>.
\<close>

theorem Status_min_mean_max:
  assumes n: "length ms < 2 ^ 64"
    and s: "sum_list (map (\<lambda>m. unat (duration_ms m)) ms) < 2 ^ 64"
  shows "(Count (fst (Status (stat_all ms))) > 0 \<longrightarrow>
            Min_d (fst (Status (stat_all ms))) \<le> Mean (fst (Status (stat_all ms))) \<and>
            Mean (fst (Status (stat_all ms))) \<le> Max_d (fst (Status (stat_all ms))) \<and>
            unat (Mean (fst (Status (stat_all ms)))) =
              sum_list (map (\<lambda>m. unat (duration_ms m)) ms) div length ms) \<and>
         (Count (fst (Status (stat_all ms))) = 0 \<longrightarrow>
            Min_d (fst (Status (stat_all ms))) = 0 \<and> Mean (fst (Status (stat_all ms))) = 0)"
proof -
  define hs where "hs = stat_all ms"
  define S where "S = sum_list (map (\<lambda>m. unat (duration_ms m)) ms)"
  have cnt: "unat (count hs) = length ms"
    using n by (simp add: hs_def stat_all_def count_foldl_Stat New_def unat_of_nat)
  have tot: "unat (total_d hs) = S"
    using s by (simp add: hs_def S_def stat_all_def total_foldl_Stat New_def unat_sum_list_no_wrap)
  have lo: "\<forall>m \<in> set ms. unat (min_d hs) \<le> unat (duration_ms m)"
    using min_d_foldl_Stat_le [of New ms] by (simp add: hs_def stat_all_def word_le_nat_alt)
  have hi: "\<forall>m \<in> set ms. unat (duration_ms m) \<le> unat (max_d hs)"
    using max_d_foldl_Stat_ge [of New ms] by (simp add: hs_def stat_all_def word_le_nat_alt)
  have bounds: "length ms * unat (min_d hs) \<le> S \<and> S \<le> length ms * unat (max_d hs)"
    unfolding S_def using lo hi by (intro sum_list_bounds) simp
  have fields: "Count (fst (Status hs)) = count hs"
    "Min_d (fst (Status hs)) = (if count hs > 0 then min_d hs else 0)"
    "Mean (fst (Status hs)) = (if count hs > 0 then total_d hs div count hs else 0)"
    "Max_d (fst (Status hs)) = max_d hs"
    by (simp_all add: Status_def Let_def)
  have pos: "Min_d (fst (Status hs)) \<le> Mean (fst (Status hs)) \<and>
             Mean (fst (Status hs)) \<le> Max_d (fst (Status hs)) \<and>
             unat (Mean (fst (Status hs))) = S div length ms" if c: "count hs > 0"
  proof -
    from c have "unat (count hs) > 0"
      by (simp add: word_greater_zero_iff unat_gt_0)
    then have l: "0 < length ms" by (simp add: cnt)
    have m: "unat (total_d hs div count hs) = S div length ms"
      by (simp add: unat_div tot cnt)
    have "unat (min_d hs) \<le> S div length ms \<and> S div length ms \<le> unat (max_d hs)"
      using div_between [OF l] bounds by blast
    then show ?thesis
      using c by (simp add: fields word_le_nat_alt m)
  qed
  have zero: "Min_d (fst (Status hs)) = 0 \<and> Mean (fst (Status hs)) = 0" if "count hs = 0"
    using that by (simp add: fields)
  show ?thesis
    using pos zero unfolding hs_def [symmetric] S_def [symmetric] fields(1) by blast
qed

lemma example_metrics_ms:
  "map (\<lambda>m. unat (duration_ms m)) example_metrics = [3, 7, 1]"
  by (simp add: example_metrics_def duration_ms_def Milliseconds_def)

theorem Status_min_mean_max_witness:
  "length example_metrics < 2 ^ 64 \<and>
   sum_list (map (\<lambda>m. unat (duration_ms m)) example_metrics) < 2 ^ 64 \<and>
   Count (fst (Status (stat_all example_metrics))) > 0 \<and>
   Min_d (fst (Status (stat_all example_metrics))) \<le> Mean (fst (Status (stat_all example_metrics))) \<and>
   Mean (fst (Status (stat_all example_metrics))) \<le> Max_d (fst (Status (stat_all example_metrics))) \<and>
   unat (Mean (fst (Status (stat_all example_metrics)))) = 3"
proof -
  have l: "length example_metrics < 2 ^ 64"
    by (simp add: example_metrics_def)
  have s: "sum_list (map (\<lambda>m. unat (duration_ms m)) example_metrics) < 2 ^ 64"
    by (simp add: example_metrics_ms)
  have c: "Count (fst (Status (stat_all example_metrics))) > 0"
    by (simp add: Count_Status stat_all_def count_foldl_Stat New_def)
      (simp add: example_metrics_def)
  have d: "sum_list (map (\<lambda>m. unat (duration_ms m)) example_metrics) div length example_metrics = 3"
    by (simp add: example_metrics_ms) (simp add: example_metrics_def)
  show ?thesis
    using Status_min_mean_max [OF l s] l s c d by simp
qed

text \<open>
  The claim as stated covers every sequence of calls. \<open>Duration\<close> is a signed type and
  \<open>Stat\<close> converts the milliseconds to \<open>uint64\<close> without a check: minus one millisecond
  becomes \<open>2 ^ 64 - 1\<close>. After two such calls \<open>total\<close> has wrapped around, and the mean
  \<open>2 ^ 63 - 1\<close> is below the minimum \<open>2 ^ 64 - 1\<close>.
\<close>

theorem Status_min_mean_counterexample:
  "Count (fst (Status (stat_all negative_metrics))) = 2 \<and>
   Min_d (fst (Status (stat_all negative_metrics))) = 18446744073709551615 \<and>
   Mean (fst (Status (stat_all negative_metrics))) = 9223372036854775807 \<and>
   \<not> Min_d (fst (Status (stat_all negative_metrics)))
       \<le> Mean (fst (Status (stat_all negative_metrics)))"
  by (simp add: negative_metrics_def stat_all_def Stat_def Status_def New_def Let_def isErr_def
      duration_ms_def Milliseconds_def MaxUint64_def not_le)

section \<open>Properties of the pipeline\<close>

subsection \<open>serializeStats and Handle\<close>

lemma serialize_loop_Cons:
  "serialize_loop ds (s # rest) i sb =
     serialize_loop ds rest (Suc i) (sb @ (if i > 0 then ''->'' else []) @ stat_entry ds s)"
  by (simp add: Let_def stat_entry_def)

lemma serialize_loop_Suc:
  "serialize_loop ds stats (Suc i) sb = sb @ concat (map (\<lambda>s. ''->'' @ stat_entry ds s) stats)"
proof (induction stats arbitrary: i sb)
  case Nil
  show ?case by simp
next
  case (Cons s stats)
  show ?case
    unfolding serialize_loop_Cons Cons.IH by simp
qed

lemma join_arrow_Cons: "join_arrow (x # xs) = x @ concat (map (\<lambda>s. ''->'' @ s) xs)"
  by (induction xs arbitrary: x) simp_all

lemma serializeStats_eq:
  assumes "stats \<noteq> []"
  shows "serializeStats ds stats = ''pipeline: '' @ join_arrow (map (stat_entry ds) stats)"
proof -
  from assms obtain s rest where st: "stats = s # rest"
    by (cases stats) auto
  have "serializeStats ds stats = serialize_loop ds (s # rest) 0 ''pipeline: ''"
    by (simp add: serializeStats_def st del: serialize_loop.simps)
  also have "\<dots> = ''pipeline: '' @ stat_entry ds s @ concat (map (\<lambda>s. ''->'' @ stat_entry ds s) rest)"
    unfolding serialize_loop_Cons serialize_loop_Suc by simp
  also have "\<dots> = ''pipeline: '' @ join_arrow (map (stat_entry ds) stats)"
    unfolding st list.map join_arrow_Cons by (simp add: comp_def)
  finally show ?thesis .
qed

lemma handle_loop_skip:
  "next \<noteq> [] \<Longrightarrow> Filter node \<noteq> next \<Longrightarrow>
   handle_loop heap (node # rest) result next stats w = handle_loop heap rest result next stats w"
  by simp

lemma handle_loop_end:
  "next = [] \<or> Filter node = next \<Longrightarrow> Filter node = builtInFilterEnd \<Longrightarrow>
   handle_loop heap (node # rest) result next stats w = Inr (result, stats, w)"
  by auto

lemma handle_loop_nil:
  "next = [] \<or> Filter node = next \<Longrightarrow> Filter node \<noteq> builtInFilterEnd \<Longrightarrow>
   filter_b node = None \<Longrightarrow>
   handle_loop heap (node # rest) result next stats w = Inl NilDereference"
  by auto

lemma handle_loop_exec:
  assumes "next = [] \<or> Filter node = next" "Filter node \<noteq> builtInFilterEnd"
    "filter_b node = Some f" "fHandle (heap f) w = (l, w1)"
  shows "handle_loop heap (node # rest) result next stats w =
     (if (if l \<noteq> [] then jump_target (JumpIf node) l else next) = builtInFilterEnd
      then Inr (l, stats @ [\<lparr>Name = Filter node, Kind = fKind (heap f), Result = l,
                               FDuration = Since (Now w) w1\<rparr>], w1)
      else handle_loop heap rest l (if l \<noteq> [] then jump_target (JumpIf node) l else next)
             (stats @ [\<lparr>Name = Filter node, Kind = fKind (heap f), Result = l,
                         FDuration = Since (Now w) w1\<rparr>]) w1)"
  using assms by (auto simp: Let_def)

lemma invoked_skip:
  "next \<noteq> [] \<Longrightarrow> Filter node \<noteq> next \<Longrightarrow>
   invoked heap (node # rest) next w = invoked heap rest next w"
  by simp

lemma invoked_end:
  "next = [] \<or> Filter node = next \<Longrightarrow> Filter node = builtInFilterEnd \<Longrightarrow>
   invoked heap (node # rest) next w = []"
  by auto

text \<open>
  The loop against the specification of the invocations: when the loop returns, it has
  appended to \<open>stats\<close> the entry of each invocation, in order; its label is the label of
  the last invocation, or the initial \<open>result\<close> when there is none; its world is the world
  after the last invocation.
\<close>

lemma handle_loop_invoked:
  "handle_loop heap fl result next stats w = Inr (r, st, w') \<Longrightarrow>
   st = stats @ map (stat_of heap) (invoked heap fl next w) \<and>
   r = (if invoked heap fl next w = [] then result
        else inv_label (last (invoked heap fl next w))) \<and>
   w' = (if invoked heap fl next w = [] then w
         else inv_after (last (invoked heap fl next w)))"
proof (induction fl arbitrary: result "next" stats w)
  case Nil
  then show ?case by simp
next
  case (Cons node rest)
  show ?case
  proof (cases "next \<noteq> [] \<and> Filter node \<noteq> next")
    case True
    with Cons.prems have "handle_loop heap rest result next stats w = Inr (r, st, w')"
      by (simp del: handle_loop.simps add: handle_loop_skip)
    from Cons.IH [OF this] True show ?thesis
      by (simp del: invoked.simps add: invoked_skip)
  next
    case False
    then have reach: "next = [] \<or> Filter node = next" by blast
    show ?thesis
    proof (cases "Filter node = builtInFilterEnd")
      case True
      with reach Cons.prems show ?thesis
        by (simp del: handle_loop.simps invoked.simps add: handle_loop_end invoked_end)
    next
      case notend: False
      show ?thesis
      proof (cases "filter_b node")
        case None
        with reach notend Cons.prems show ?thesis
          by (simp del: handle_loop.simps add: handle_loop_nil)
      next
        case (Some f)
        obtain l w1 where h: "fHandle (heap f) w = (l, w1)"
          by (cases "fHandle (heap f) w") auto
        define i where "i = \<lparr>inv_node = node, inv_filter = f, inv_label = l,
                               inv_before = w, inv_after = w1\<rparr>"
        define n' where "n' = (if l \<noteq> [] then jump_target (JumpIf node) l else next)"
        have s: "stat_of heap i = \<lparr>Name = Filter node, Kind = fKind (heap f), Result = l,
                               FDuration = Since (Now w) w1\<rparr>"
          by (simp add: stat_of_def i_def)
        note eq = handle_loop_exec [where heap = heap and f = f and rest = rest
            and result = result and stats = stats, OF reach notend Some h,
            folded s n'_def]
        have inv: "invoked heap (node # rest) next w =
            i # (if n' = builtInFilterEnd then [] else invoked heap rest n' w1)"
          using reach notend Some h by (auto simp: Let_def i_def n'_def)
        show ?thesis
        proof (cases "n' = builtInFilterEnd")
          case True
          with eq Cons.prems have "st = stats @ [stat_of heap i]" "r = l" "w' = w1" by simp_all
          then show ?thesis unfolding inv using True by (simp add: i_def)
        next
          case False
          with eq Cons.prems have
            run: "handle_loop heap rest l n' (stats @ [stat_of heap i]) w1 = Inr (r, st, w')"
            by simp
          note ih = Cons.IH [OF run]
          show ?thesis unfolding inv using False ih by (simp add: i_def)
        qed
      qed
    qed
  qed
qed

text \<open>
  Every invocation of the specification is a call of \<open>Handle\<close> on the instance bound to a
  node of the flow, and the calls are threaded: the first one starts in the world of the
  request, each further one in the world that its predecessor left.
\<close>

lemma invoked_calls:
  "\<forall>i \<in> set (invoked heap fl next w).
     inv_node i \<in> set fl \<and> Filter (inv_node i) \<noteq> builtInFilterEnd \<and>
     filter_b (inv_node i) = Some (inv_filter i) \<and>
     fHandle (heap (inv_filter i)) (inv_before i) = (inv_label i, inv_after i)"
proof (induction fl arbitrary: "next" w)
  case Nil
  show ?case by simp
next
  case (Cons node rest)
  show ?case
    using Cons.IH by (auto simp: Let_def split: option.splits prod.splits if_splits)
qed

lemma invoked_threaded:
  "invoked heap fl next w \<noteq> [] \<Longrightarrow> inv_before (hd (invoked heap fl next w)) = w"
  "Suc k < length (invoked heap fl next w) \<Longrightarrow>
     inv_before (invoked heap fl next w ! Suc k) = inv_after (invoked heap fl next w ! k)"
proof (induction fl arbitrary: "next" w k)
  case Nil
  { case 1 then show ?case by simp }
  { case 2 then show ?case by simp }
next
  case (Cons node rest)
  { case 1
    then show ?case
      using Cons.IH(1) by (auto simp: Let_def split: option.splits prod.splits if_splits) }
  { case 2
    show ?case
    proof (cases "next \<noteq> [] \<and> Filter node \<noteq> next")
      case True
      with 2 Cons.IH(2) show ?thesis by simp
    next
      case False
      show ?thesis
      proof (cases "filter_b node")
        case None
        with False 2 show ?thesis by (auto split: if_splits)
      next
        case (Some f)
        obtain l w1 where h: "fHandle (heap f) w = (l, w1)"
          by (cases "fHandle (heap f) w") auto
        define n' where "n' = (if l \<noteq> [] then jump_target (JumpIf node) l else next)"
        define i where "i = \<lparr>inv_node = node, inv_filter = f, inv_label = l,
                               inv_before = w, inv_after = w1\<rparr>"
        from 2 False have notend: "Filter node \<noteq> builtInFilterEnd" by (auto split: if_splits)
        have inv: "invoked heap (node # rest) next w =
            i # (if n' = builtInFilterEnd then [] else invoked heap rest n' w1)"
          using False notend Some h by (auto simp: Let_def i_def n'_def)
        from 2 inv have ne: "n' \<noteq> builtInFilterEnd" and
          len: "k < length (invoked heap rest n' w1)"
          by (auto split: if_splits)
        then have tl: "invoked heap (node # rest) next w = i # invoked heap rest n' w1"
          using inv by simp
        show ?thesis
        proof (cases k)
          case 0
          from len have ne': "invoked heap rest n' w1 \<noteq> []" by auto
          from Cons.IH(1) [OF ne'] show ?thesis
            unfolding tl 0 using ne' by (simp add: hd_conv_nth i_def)
        next
          case (Suc j)
          with len have "Suc j < length (invoked heap rest n' w1)" by simp
          from Cons.IH(2) [OF this] show ?thesis
            unfolding tl Suc by simp
        qed
      qed
    qed }
qed

lemma handle_loop_total:
  "\<forall>n \<in> set fl. Filter n \<noteq> builtInFilterEnd \<longrightarrow> filter_b n \<noteq> None \<Longrightarrow>
   \<exists>r st w'. handle_loop heap fl result next stats w = Inr (r, st, w')"
proof (induction fl arbitrary: result "next" stats w)
  case Nil
  show ?case by simp
next
  case (Cons n rest)
  from Cons.prems have rest: "\<forall>n \<in> set rest. Filter n \<noteq> builtInFilterEnd \<longrightarrow> filter_b n \<noteq> None"
    by simp
  show ?case
  proof (cases "next \<noteq> [] \<and> Filter n \<noteq> next")
    case True
    then show ?thesis
      using Cons.IH [OF rest] by (simp del: handle_loop.simps add: handle_loop_skip)
  next
    case False
    then have reach: "next = [] \<or> Filter n = next" by blast
    show ?thesis
    proof (cases "Filter n = builtInFilterEnd")
      case True
      with reach show ?thesis
        by (simp del: handle_loop.simps add: handle_loop_end)
    next
      case notend: False
      with Cons.prems obtain f where f: "filter_b n = Some f" by auto
      obtain l w1 where h: "fHandle (heap f) w = (l, w1)"
        by (cases "fHandle (heap f) w") auto
      show ?thesis
        unfolding handle_loop_exec [where heap = heap and f = f, OF reach notend f h]
        using Cons.IH [OF rest] by simp
    qed
  qed
qed

lemma handle_loop_all_skipped:
  "next \<noteq> [] \<Longrightarrow> \<forall>n \<in> set rest. Filter n \<noteq> next \<Longrightarrow>
   handle_loop heap rest result next stats w = Inr (result, stats, w)"
  by (induction rest) simp_all

lemma handle_loop_skip_prefix:
  "next \<noteq> [] \<Longrightarrow> \<forall>n \<in> set mid. Filter n \<noteq> next \<Longrightarrow>
   handle_loop heap (mid @ rest) result next stats w = handle_loop heap rest result next stats w"
  by (induction mid) simp_all

lemma Handle_invoked:
  assumes "handle_loop heap (flow p) [] [] [] w = Inr (r, st, w')"
  shows "Handle heap ds p w =
           Inr (if invoked heap (flow p) [] w = [] then []
                else inv_label (last (invoked heap (flow p) [] w)),
                AddTag (serializeStats ds (map (stat_of heap) (invoked heap (flow p) [] w)))
                  (if invoked heap (flow p) [] w = [] then w
                   else inv_after (last (invoked heap (flow p) [] w))))"
  using handle_loop_invoked [OF assms] assms by (simp add: Handle_def)

lemma Handle_Inr_loop:
  "Handle heap ds p w = Inr (r, w') \<Longrightarrow> \<exists>st w1. handle_loop heap (flow p) [] [] [] w = Inr (r, st, w1)"
  by (auto simp: Handle_def split: sum.splits)

text \<open>The example flows, run from the initial world.\<close>

lemma run_single:
  "handle_loop example_heap (flow (pipeline_of single_flow)) [] [] [] world0 =
     Inr ([], [\<lparr>Name = ''B'', Kind = ''Adaptor'', Result = [], FDuration = 0\<rparr>], world0)"
  by (simp add: pipeline_of_def single_flow_def flow_node_def example_heap_def world0_def
      builtInFilterEnd_def Now_def Since_def)

lemma run_jump:
  "handle_loop example_heap (flow (pipeline_of jump_flow)) [] [] [] world0 =
     Inr ([], [\<lparr>Name = ''A'', Kind = ''Validator'', Result = ''skip'', FDuration = 5000000\<rparr>,
               \<lparr>Name = ''C'', Kind = ''Limiter'', Result = [], FDuration = 0\<rparr>],
          \<lparr>clock = 5000000, tags = [], seen = 1\<rparr>)"
  by (simp add: pipeline_of_def jump_flow_def flow_node_def example_heap_def world0_def
      builtInFilterEnd_def Now_def Since_def jump_target_def)

lemma run_repeat:
  "handle_loop example_heap (flow (pipeline_of repeat_flow)) [] [] [] world0 =
     Inr (''done'',
          [\<lparr>Name = ''A'', Kind = ''Validator'', Result = ''skip'', FDuration = 5000000\<rparr>,
           \<lparr>Name = ''C'', Kind = ''Limiter'', Result = [], FDuration = 0\<rparr>,
           \<lparr>Name = ''C'', Kind = ''Limiter'', Result = ''again'', FDuration = 0\<rparr>,
           \<lparr>Name = ''D'', Kind = ''Proxy'', Result = ''done'', FDuration = 0\<rparr>],
          \<lparr>clock = 5000000, tags = [], seen = 2\<rparr>)"
  by (simp add: pipeline_of_def repeat_flow_def flow_node_def example_heap_def world0_def
      builtInFilterEnd_def Now_def Since_def jump_target_def Let_def numeral_2_eq_2)

lemma run_short_circuit:
  "handle_loop example_heap (flow (pipeline_of short_circuit_flow)) [] [] [] world0 =
     Inr (''skip'', [\<lparr>Name = ''B'', Kind = ''Adaptor'', Result = [], FDuration = 0\<rparr>,
                     \<lparr>Name = ''A'', Kind = ''Validator'', Result = ''skip'', FDuration = 5000000\<rparr>],
          \<lparr>clock = 5000000, tags = [], seen = 0\<rparr>)"
  by (simp add: pipeline_of_def short_circuit_flow_def flow_node_def example_heap_def world0_def
      builtInFilterEnd_def Now_def Since_def jump_target_def)

lemma invoked_linear:
  "invoked example_heap (flow (pipeline_of linear_flow)) [] world0 =
     [\<lparr>inv_node = flow_node ''B'' [] 1, inv_filter = 1, inv_label = [],
       inv_before = world0, inv_after = world0\<rparr>,
      \<lparr>inv_node = flow_node ''D'' [] 3, inv_filter = 3, inv_label = ''done'',
       inv_before = world0, inv_after = world0\<rparr>]"
  by (simp add: pipeline_of_def linear_flow_def flow_node_def example_heap_def
      builtInFilterEnd_def jump_target_def)

lemma invoked_short_circuit:
  "invoked example_heap (flow (pipeline_of short_circuit_flow)) [] world0 =
     [\<lparr>inv_node = flow_node ''B'' [] 1, inv_filter = 1, inv_label = [],
       inv_before = world0, inv_after = world0\<rparr>,
      \<lparr>inv_node = flow_node ''A'' [(''skip'', ''END'')] 0, inv_filter = 0, inv_label = ''skip'',
       inv_before = world0, inv_after = world0\<lparr>clock := 5000000\<rparr>\<rparr>]"
  by (simp add: pipeline_of_def short_circuit_flow_def flow_node_def example_heap_def
      builtInFilterEnd_def jump_target_def world0_def)

subsection \<open>The returned label\<close>

text \<open>
  Claim C2. For every compiled flow (every node other than \<open>END\<close> has its filter bound)
  and every request, \<open>Handle\<close> returns, and the label it returns is the one returned by
  the last filter it invoked, or the empty string if it invoked none; the statistics that
  it serializes are the entries of the invocations, and the world it returns is the one
  that the last invocation left, with the tag. Each invocation is a call of \<open>Handle\<close> on
  the instance bound to a node of the flow, with the label and the world that this call
  returned. An empty flow and a flow that is \<open>END\<close> alone invoke no filter and return the
  empty label.
\<close>

theorem Handle_returns_last_label:
  assumes "\<forall>n \<in> set (flow p). Filter n \<noteq> builtInFilterEnd \<longrightarrow> filter_b n \<noteq> None"
  shows "Handle heap ds p w =
           Inr (if invoked heap (flow p) [] w = [] then []
                else inv_label (last (invoked heap (flow p) [] w)),
                AddTag (serializeStats ds (map (stat_of heap) (invoked heap (flow p) [] w)))
                  (if invoked heap (flow p) [] w = [] then w
                   else inv_after (last (invoked heap (flow p) [] w)))) \<and>
         (\<forall>i \<in> set (invoked heap (flow p) [] w).
            inv_node i \<in> set (flow p) \<and> filter_b (inv_node i) = Some (inv_filter i) \<and>
            fHandle (heap (inv_filter i)) (inv_before i) = (inv_label i, inv_after i)) \<and>
         (flow p = [] \<or> (\<exists>n. flow p = [n] \<and> Filter n = builtInFilterEnd) \<longrightarrow>
            invoked heap (flow p) [] w = [] \<and>
            Handle heap ds p w = Inr ([], AddTag (serializeStats ds []) w))"
proof -
  from handle_loop_total [OF assms] obtain r st w' where
    run: "handle_loop heap (flow p) [] [] [] w = Inr (r, st, w')"
    by blast
  note H = Handle_invoked [OF run, of ds]
  have calls: "\<forall>i \<in> set (invoked heap (flow p) [] w).
            inv_node i \<in> set (flow p) \<and> filter_b (inv_node i) = Some (inv_filter i) \<and>
            fHandle (heap (inv_filter i)) (inv_before i) = (inv_label i, inv_after i)"
    using invoked_calls [of heap "flow p" "[]" w] by blast
  have edge: "invoked heap (flow p) [] w = []"
    if "flow p = [] \<or> (\<exists>n. flow p = [n] \<and> Filter n = builtInFilterEnd)"
    using that by auto
  show ?thesis
    using H calls edge by simp
qed

theorem Handle_returns_last_label_witness:
  "list_all (\<lambda>n. filter_b n \<noteq> None) (flow (pipeline_of linear_flow)) \<and>
   map (\<lambda>i. (Filter (inv_node i), inv_label i))
     (invoked example_heap (flow (pipeline_of linear_flow)) [] world0) =
     [(''B'', []), (''D'', ''done'')] \<and>
   Handle example_heap example_ds (pipeline_of linear_flow) world0 =
     Inr (''done'', \<lparr>clock = 0, tags = [''pipeline: B(0s)->D(done,0s)''], seen = 0\<rparr>)"
proof -
  have a: "list_all (\<lambda>n. filter_b n \<noteq> None) (flow (pipeline_of linear_flow))"
    by (simp add: pipeline_of_def linear_flow_def flow_node_def)
  then have b: "\<forall>n \<in> set (flow (pipeline_of linear_flow)).
      Filter n \<noteq> builtInFilterEnd \<longrightarrow> filter_b n \<noteq> None"
    by (simp add: list_all_iff)
  have "Handle example_heap example_ds (pipeline_of linear_flow) world0 =
     Inr (''done'', \<lparr>clock = 0, tags = [''pipeline: B(0s)->D(done,0s)''], seen = 0\<rparr>)"
    using Handle_returns_last_label [OF b, of example_heap example_ds world0]
    unfolding invoked_linear
    by (simp add: stat_of_def serializeStats_def AddTag_def example_ds_def world0_def
        flow_node_def example_heap_def Now_def Since_def)
  then show ?thesis
    using a unfolding invoked_linear by (simp add: flow_node_def)
qed

subsection \<open>The tag\<close>

text \<open>
  Claim C5, as amended. When \<open>Handle\<close> ends after at least one filter has been invoked,
  the tag attached with \<open>AddTag\<close> is \<open>pipeline: \<close> followed by one entry per invoked
  filter, in the order of the invocations, joined by \<open>->\<close>; the entry is
  \<open>name(result,dur)\<close> when the label that the filter returned is not empty and
  \<open>name(dur)\<close>, without a comma, when it is empty, \<open>dur\<close> being the time elapsed between
  the begin and the end of the invocation. A filter whose label jumps to \<open>END\<close> has its
  entry like the others.
\<close>

theorem Handle_tag:
  assumes "Handle heap ds p w = Inr (r, w')" and "invoked heap (flow p) [] w \<noteq> []"
  shows "w' = (inv_after (last (invoked heap (flow p) [] w)))
           \<lparr>tags := tags (inv_after (last (invoked heap (flow p) [] w))) @
              [''pipeline: '' @
               join_arrow (map (\<lambda>i. Filter (inv_node i) @ ''('' @
                                     (if inv_label i = [] then [] else inv_label i @ '','') @
                                     ds (Since (Now (inv_before i)) (inv_after i)) @ '')'')
                            (invoked heap (flow p) [] w))]\<rparr>"
proof -
  from Handle_Inr_loop [OF assms(1)] obtain st w1 where
    run: "handle_loop heap (flow p) [] [] [] w = Inr (r, st, w1)"
    by blast
  have ne: "map (stat_of heap) (invoked heap (flow p) [] w) \<noteq> []"
    using assms(2) by simp
  have entry: "stat_entry ds (stat_of heap i) =
      Filter (inv_node i) @ ''('' @ (if inv_label i = [] then [] else inv_label i @ '','') @
      ds (Since (Now (inv_before i)) (inv_after i)) @ '')''" for i
    by (simp add: stat_entry_def stat_of_def)
  show ?thesis
    using Handle_invoked [OF run, of ds] assms
    unfolding serializeStats_eq [OF ne]
    by (simp add: AddTag_def comp_def entry)
qed

theorem Handle_tag_witness:
  "map (\<lambda>i. (Filter (inv_node i), inv_label i))
     (invoked example_heap (flow (pipeline_of short_circuit_flow)) [] world0) =
     [(''B'', []), (''A'', ''skip'')] \<and>
   (\<exists>w'. Handle example_heap example_ds (pipeline_of short_circuit_flow) world0 =
            Inr (''skip'', w') \<and>
          w' = \<lparr>clock = 5000000, tags = [''pipeline: B(0s)->A(skip,5ms)''], seen = 0\<rparr>)"
proof -
  obtain w' where H: "Handle example_heap example_ds (pipeline_of short_circuit_flow) world0 =
      Inr (''skip'', w')"
    by (simp add: Handle_def run_short_circuit)
  have ne: "invoked example_heap (flow (pipeline_of short_circuit_flow)) [] world0 \<noteq> []"
    unfolding invoked_short_circuit by simp
  have "w' = \<lparr>clock = 5000000, tags = [''pipeline: B(0s)->A(skip,5ms)''], seen = 0\<rparr>"
    using Handle_tag [OF H ne]
    unfolding invoked_short_circuit
    by (simp add: example_ds_def world0_def flow_node_def Now_def Since_def)
  with H show ?thesis
    unfolding invoked_short_circuit by (simp add: flow_node_def)
qed

text \<open>
  The claim as stated puts a comma into the entry of an empty label. \<open>serializeStats\<close>
  writes the label and the comma only under \<open>stat.Result != ""\<close>: the adaptor alone gives
  the tag \<open>pipeline: B(0s)\<close>.
\<close>

theorem Handle_tag_counterexample:
  "Handle example_heap example_ds (pipeline_of single_flow) world0 =
     Inr ([], \<lparr>clock = 0, tags = [''pipeline: B(0s)''], seen = 0\<rparr>) \<and>
   ''pipeline: B(0s)'' \<noteq> ''pipeline: B(,0s)''"
  unfolding Handle_def run_single
  by (simp add: serializeStats_def AddTag_def example_ds_def world0_def)

subsection \<open>A jump target that returns the empty label\<close>

text \<open>
  Claim C10, as amended. \<open>next\<close> is assigned only after a filter has returned a
  non-empty label (lemma \<open>handle_loop_exec\<close>). So when a jump to \<open>next\<close> is pending, the
  nodes up to the first node \<open>c\<close> with that filter name are skipped; when the filter of
  \<open>c\<close> then returns the empty label and no later node of the flow carries the filter
  name of \<open>c\<close>, every remaining node is skipped without being invoked (no further entry
  in \<open>stats\<close>, the world as \<open>c\<close> left it) and the empty string is returned.
\<close>

theorem Handle_jump_target_empty_label:
  assumes "next \<noteq> []" and "\<forall>n \<in> set mid. Filter n \<noteq> next"
    and "Filter c = next" "Filter c \<noteq> builtInFilterEnd"
    and "filter_b c = Some f" "fHandle (heap f) w = ([], w1)"
    and "\<forall>n \<in> set rest. Filter n \<noteq> next"
  shows "handle_loop heap (mid @ c # rest) result next stats w =
           Inr ([], stats @ [\<lparr>Name = Filter c, Kind = fKind (heap f), Result = [],
                               FDuration = Since (Now w) w1\<rparr>], w1)"
proof -
  have reach: "next = [] \<or> Filter c = next" using assms(3) by simp
  have ne: "next \<noteq> builtInFilterEnd" using assms(3,4) by simp
  have "handle_loop heap (mid @ c # rest) result next stats w =
        handle_loop heap (c # rest) result next stats w"
    by (rule handle_loop_skip_prefix [OF assms(1) assms(2)])
  also have "\<dots> = Inr ([], stats @ [\<lparr>Name = Filter c, Kind = fKind (heap f), Result = [],
                               FDuration = Since (Now w) w1\<rparr>], w1)"
    unfolding handle_loop_exec [where heap = heap and f = f, OF reach assms(4) assms(5) assms(6)]
    using ne handle_loop_all_skipped [OF assms(1) assms(7)] by simp
  finally show ?thesis .
qed

theorem Handle_jump_target_empty_label_witness:
  "''C'' \<noteq> [] \<and> list_all (\<lambda>n. Filter n \<noteq> ''C'') [flow_node ''B'' [] 1] \<and>
   Filter (flow_node ''C'' [] 2) = ''C'' \<and>
   Filter (flow_node ''C'' [] 2) \<noteq> builtInFilterEnd \<and>
   filter_b (flow_node ''C'' [] 2) = Some 2 \<and>
   fHandle (example_heap 2) \<lparr>clock = 5000000, tags = [], seen = 0\<rparr> =
     ([], \<lparr>clock = 5000000, tags = [], seen = 1\<rparr>) \<and>
   list_all (\<lambda>n. Filter n \<noteq> ''C'') [flow_node ''D'' [] 3] \<and>
   handle_loop example_heap ([flow_node ''B'' [] 1] @ flow_node ''C'' [] 2 # [flow_node ''D'' [] 3])
       ''skip'' ''C''
       [\<lparr>Name = ''A'', Kind = ''Validator'', Result = ''skip'', FDuration = 5000000\<rparr>]
       \<lparr>clock = 5000000, tags = [], seen = 0\<rparr> =
     Inr ([], [\<lparr>Name = ''A'', Kind = ''Validator'', Result = ''skip'', FDuration = 5000000\<rparr>,
               \<lparr>Name = ''C'', Kind = ''Limiter'', Result = [], FDuration = 0\<rparr>],
          \<lparr>clock = 5000000, tags = [], seen = 1\<rparr>) \<and>
   Handle example_heap example_ds (pipeline_of jump_flow) world0 =
     Inr ([], \<lparr>clock = 5000000, tags = [''pipeline: A(skip,5ms)->C(0s)''], seen = 1\<rparr>)"
proof -
  have 1: "''C'' \<noteq> []" by simp
  have 2: "\<forall>n \<in> set [flow_node ''B'' [] 1]. Filter n \<noteq> ''C''" by (simp add: flow_node_def)
  have 3: "Filter (flow_node ''C'' [] 2) = ''C''" by (simp add: flow_node_def)
  have 4: "Filter (flow_node ''C'' [] 2) \<noteq> builtInFilterEnd"
    by (simp add: flow_node_def builtInFilterEnd_def)
  have 5: "filter_b (flow_node ''C'' [] 2) = Some 2" by (simp add: flow_node_def)
  have 6: "fHandle (example_heap 2) \<lparr>clock = 5000000, tags = [], seen = 0\<rparr> =
     ([], \<lparr>clock = 5000000, tags = [], seen = 1\<rparr>)"
    by (simp add: example_heap_def)
  have 7: "\<forall>n \<in> set [flow_node ''D'' [] 3]. Filter n \<noteq> ''C''" by (simp add: flow_node_def)
  have H: "Handle example_heap example_ds (pipeline_of jump_flow) world0 =
     Inr ([], \<lparr>clock = 5000000, tags = [''pipeline: A(skip,5ms)->C(0s)''], seen = 1\<rparr>)"
    unfolding Handle_def run_jump
    by (simp add: serializeStats_def AddTag_def example_ds_def)
  show ?thesis
    using Handle_jump_target_empty_label [where heap = example_heap and f = 2
        and result = "''skip''"
        and stats = "[\<lparr>Name = ''A'', Kind = ''Validator'', Result = ''skip'',
                        FDuration = 5000000\<rparr>]", OF 1 2 3 4 5 6 7]
      1 2 3 4 5 6 7 H
    by (simp add: list_all_iff flow_node_def example_heap_def Now_def Since_def)
qed

text \<open>
  The claim as stated has no condition on the later nodes. In \<open>repeat_flow\<close> the limiter
  is reached by the jump and returns the empty label; the next node names the limiter
  again, it runs and returns \<open>again\<close>, which clears \<open>next\<close>; the proxy, a node with
  another filter name, is then invoked, and \<open>Handle\<close> returns \<open>done\<close>.
\<close>

theorem Handle_jump_target_repeated_counterexample:
  "handle_loop example_heap (flow (pipeline_of repeat_flow)) [] [] [] world0 =
     Inr (''done'',
          [\<lparr>Name = ''A'', Kind = ''Validator'', Result = ''skip'', FDuration = 5000000\<rparr>,
           \<lparr>Name = ''C'', Kind = ''Limiter'', Result = [], FDuration = 0\<rparr>,
           \<lparr>Name = ''C'', Kind = ''Limiter'', Result = ''again'', FDuration = 0\<rparr>,
           \<lparr>Name = ''D'', Kind = ''Proxy'', Result = ''done'', FDuration = 0\<rparr>],
          \<lparr>clock = 5000000, tags = [], seen = 2\<rparr>) \<and>
   Handle example_heap example_ds (pipeline_of repeat_flow) world0 =
     Inr (''done'', \<lparr>clock = 5000000,
                     tags = [''pipeline: A(skip,5ms)->C(0s)->C(again,0s)->D(done,0s)''],
                     seen = 2\<rparr>)"
  unfolding Handle_def run_repeat
  by (simp add: serializeStats_def AddTag_def example_ds_def)

subsection \<open>Validate\<close>

lemma validate_jumpIf_bad:
  "(r, t) \<in> set js \<Longrightarrow> \<not> StrInSlice r results \<or> \<not> V t \<Longrightarrow>
   validate_jumpIf name results V js \<noteq> None"
  by (induction js) auto

lemma validate_jumpIfs_bad:
  assumes "Filter n \<noteq> builtInFilterEnd" and "(r, t) \<in> set (JumpIf n)"
    and "(\<not> V t \<and> t \<notin> Filter ` set a) \<or>
         (\<forall>sp res. specs (Filter n) = Some sp \<longrightarrow> reg (spec_Kind sp) = Some res \<longrightarrow>
            \<not> StrInSlice r res)"
  shows "validate_jumpIfs reg specs (a @ n # b) V \<noteq> None"
  using assms(3)
proof (induction a arbitrary: V)
  case Nil
  show ?case
  proof (cases "specs (Filter n)")
    case None
    with assms(1) show ?thesis by simp
  next
    case (Some sp)
    show ?thesis
    proof (cases "reg (spec_Kind sp)")
      case None
      with Some assms(1) show ?thesis by simp
    next
      case (Some res)
      from Nil \<open>specs (Filter n) = Some sp\<close> Some
      have "\<not> StrInSlice r res \<or> \<not> V t" by auto
      from validate_jumpIf_bad [where V = V and results = res, OF assms(2) this]
      have "validate_jumpIf (Filter n) res V (JumpIf n) \<noteq> None" .
      with \<open>specs (Filter n) = Some sp\<close> Some assms(1) show ?thesis by auto
    qed
  qed
next
  case (Cons m a)
  have next_ok: "(\<not> (V(Filter m := True)) t \<and> t \<notin> Filter ` set a) \<or>
         (\<forall>sp res. specs (Filter n) = Some sp \<longrightarrow> reg (spec_Kind sp) = Some res \<longrightarrow>
            \<not> StrInSlice r res)"
    using Cons.prems by auto
  have same_ok: "(\<not> V t \<and> t \<notin> Filter ` set a) \<or>
         (\<forall>sp res. specs (Filter n) = Some sp \<longrightarrow> reg (spec_Kind sp) = Some res \<longrightarrow>
            \<not> StrInSlice r res)"
    using Cons.prems by auto
  have A: "validate_jumpIfs reg specs (a @ n # b) (V(Filter m := True)) \<noteq> None"
    by (rule Cons.IH [of "V(Filter m := True)", OF next_ok])
  have B: "validate_jumpIfs reg specs (a @ n # b) V \<noteq> None"
    by (rule Cons.IH [of V, OF same_ok])
  show ?case
    using A B by (simp split: option.splits)
qed

text \<open>
  Claim C4, as amended. For every spec whose flow contains a node other than \<open>END\<close> with
  a \<open>jumpIf\<close> entry whose target is neither \<open>END\<close> nor the filter name of a node that
  appears later in the flow (a backward jump, or a jump of the node to itself), \<open>Validate\<close>
  returns an error; likewise when the key of the entry is not in the declared result set
  of the kind of the node's filter.
\<close>

theorem Validate_rejects_bad_jump:
  assumes "Flow s = pre @ n # post" and "Filter n \<noteq> builtInFilterEnd"
    and "(result, target) \<in> set (JumpIf n)"
    and "(target \<noteq> builtInFilterEnd \<and> target \<notin> Filter ` set post) \<or>
         (\<forall>specs sp res.
            validate_filter_specs nfs (Filters s) Map.empty = Inr specs \<longrightarrow>
            specs (Filter n) = Some sp \<longrightarrow> reg (spec_Kind sp) = Some res \<longrightarrow>
            result \<notin> set res)"
  shows "Validate nfs reg s \<noteq> None"
proof (cases "validate_filter_specs nfs (Filters s) Map.empty")
  case (Inl e)
  then show ?thesis by (simp add: Validate_def)
next
  case (Inr specs)
  have rev: "rev (Flow s) = rev post @ n # rev pre"
    by (simp add: assms(1))
  have cond: "(\<not> ((\<lambda>_. False)(builtInFilterEnd := True)) target \<and> target \<notin> Filter ` set (rev post)) \<or>
         (\<forall>sp res. specs (Filter n) = Some sp \<longrightarrow> reg (spec_Kind sp) = Some res \<longrightarrow>
            \<not> StrInSlice result res)"
    using assms(4) Inr by (auto simp: StrInSlice_def)
  have "validate_jumpIfs reg specs (rev (Flow s)) ((\<lambda>_. False)(builtInFilterEnd := True)) \<noteq> None"
    unfolding rev
    by (rule validate_jumpIfs_bad [where V = "(\<lambda>_. False)(builtInFilterEnd := True)"
          and reg = reg and specs = specs, OF assms(2) assms(3) cond])
  then show ?thesis
    by (auto simp: Validate_def Inr)
qed

lemma example_filters_specs:
  "validate_filter_specs example_nfs example_filters Map.empty =
     Inr [''A'' \<mapsto> filter_entry ''A'' ''Validator'', ''B'' \<mapsto> filter_entry ''B'' ''Adaptor'',
          ''C'' \<mapsto> filter_entry ''C'' ''Limiter'', ''D'' \<mapsto> filter_entry ''D'' ''Proxy'']"
  by (simp add: example_filters_def example_nfs_def filter_entry_def isBuiltInFilter_def
      builtInFilterEnd_def Let_def)

theorem Validate_rejects_bad_jump_witness:
  "Flow backward_spec = [spec_node ''A'' []] @ spec_node ''C'' [(''retry'', ''A'')] # [] \<and>
   Filter (spec_node ''C'' [(''retry'', ''A'')]) \<noteq> builtInFilterEnd \<and>
   (''retry'', ''A'') \<in> set (JumpIf (spec_node ''C'' [(''retry'', ''A'')])) \<and>
   ''A'' \<noteq> builtInFilterEnd \<and> ''A'' \<notin> Filter ` set [] \<and>
   Validate example_nfs example_reg backward_spec \<noteq> None"
proof -
  have 1: "Flow backward_spec = [spec_node ''A'' []] @ spec_node ''C'' [(''retry'', ''A'')] # []"
    by (simp add: backward_spec_def)
  have 2: "Filter (spec_node ''C'' [(''retry'', ''A'')]) \<noteq> builtInFilterEnd"
    by (simp add: spec_node_def builtInFilterEnd_def)
  have 3: "(''retry'', ''A'') \<in> set (JumpIf (spec_node ''C'' [(''retry'', ''A'')]))"
    by (simp add: spec_node_def)
  have 4: "''A'' \<noteq> builtInFilterEnd \<and> ''A'' \<notin> Filter ` set []"
    by (simp add: builtInFilterEnd_def)
  show ?thesis
    using Validate_rejects_bad_jump [where nfs = example_nfs and reg = example_reg,
        OF 1 2 3 disjI1 [OF 4]] 1 2 3 4
    by simp
qed

text \<open>
  The error of the backward jump names the node and the target; the error of a jump on a
  label that the kind does not declare names the node, the label and the declared labels.
\<close>

lemma backward_spec_error:
  "Validate example_nfs example_reg backward_spec = Some (''flow'', TargetNotFound ''C'' ''A'')"
  by (simp add: Validate_def backward_spec_def example_filters_specs spec_node_def
      builtInFilterEnd_def example_reg_def filter_entry_def StrInSlice_def)

lemma unknown_result_spec_error:
  "Validate example_nfs example_reg unknown_result_spec =
     Some (''flow'', ResultNotIn ''A'' ''timeout'' [''skip''])"
  by (simp add: Validate_def unknown_result_spec_def example_filters_specs spec_node_def
      builtInFilterEnd_def example_reg_def filter_entry_def StrInSlice_def)

text \<open>
  The claim as stated covers every node. The loop skips a node whose filter is \<open>END\<close>
  before it looks at its \<open>jumpIf\<close>: a flow that ends in an \<open>END\<close> node with a jump to
  a name that no node carries is accepted.
\<close>

theorem Validate_END_node_jump_counterexample:
  "Validate example_nfs example_reg end_jump_spec = None"
  by (simp add: Validate_def end_jump_spec_def example_filters_specs spec_node_def
      builtInFilterEnd_def defaultRequest_def example_reg_def filter_entry_def StrInSlice_def)

text \<open>
  Filter names are said to be unique within a pipeline, and a spec with two entries of
  the same name to be rejected. \<open>Validate\<close> stores each parsed entry under its name and
  never asks whether the name is taken: the spec below, with two entries named \<open>A\<close>, is
  accepted.
\<close>

theorem Validate_duplicate_counterexample:
  "Validate example_nfs example_reg duplicate_spec = None"
  by (simp add: Validate_def duplicate_spec_def example_nfs_def spec_node_def
      isBuiltInFilter_def builtInFilterEnd_def defaultRequest_def example_reg_def
      filter_entry_def StrInSlice_def Let_def)

lemma validate_filter_specs_Cons_ok:
  "nfs g = Inr sg \<Longrightarrow> \<not> isBuiltInFilter (spec_Name sg) \<Longrightarrow>
   validate_filter_specs nfs (g # post) S = validate_filter_specs nfs post (S(spec_Name sg \<mapsto> sg))"
  by (simp add: Let_def)

lemma validate_filter_specs_shadowed:
  assumes "\<exists>g \<in> set post. \<exists>sg. nfs g = Inr sg \<and> spec_Name sg = name"
  shows "validate_filter_specs nfs post (specs(name \<mapsto> sp)) = validate_filter_specs nfs post specs"
  using assms
proof (induction post arbitrary: specs)
  case Nil
  then show ?case by simp
next
  case (Cons g post)
  show ?case
  proof (cases "nfs g")
    case (Inl e)
    then show ?thesis by simp
  next
    case (Inr sg)
    show ?thesis
    proof (cases "isBuiltInFilter (spec_Name sg)")
      case True
      with Inr show ?thesis by simp
    next
      case False
      show ?thesis
      proof (cases "spec_Name sg = name")
        case True
        show ?thesis
          unfolding validate_filter_specs_Cons_ok [where nfs = nfs and g = g, OF Inr False] True fun_upd_upd ..
      next
        case diff: False
        with Cons.prems Inr have later: "\<exists>g \<in> set post. \<exists>sg. nfs g = Inr sg \<and> spec_Name sg = name"
          by auto
        have tw: "(specs(name \<mapsto> sp))(spec_Name sg \<mapsto> sg) = (specs(spec_Name sg \<mapsto> sg))(name \<mapsto> sp)"
          using diff by (simp add: fun_upd_twist)
        show ?thesis
          unfolding validate_filter_specs_Cons_ok [where nfs = nfs and g = g, OF Inr False] tw
          by (rule Cons.IH [OF later])
      qed
    qed
  qed
qed

lemma validate_filter_specs_append:
  "validate_filter_specs nfs (xs @ ys) specs =
     (case validate_filter_specs nfs xs specs of
        Inl e \<Rightarrow> Inl e
      | Inr specs' \<Rightarrow> validate_filter_specs nfs ys specs')"
  by (induction xs arbitrary: specs) (simp_all add: Let_def split: sum.splits)

text \<open>
  Claim C8, as amended. \<open>Validate\<close> does not require filter names to be unique: a filter
  entry whose name a later entry uses again is replaced by that entry. Such an entry has
  to parse and must not be named \<open>END\<close>; beyond that \<open>Validate\<close> returns for the spec
  what it returns for the spec without the entry.
\<close>

theorem Validate_shadowed_entry:
  assumes "nfs f = Inr sp" and "spec_Name sp \<noteq> builtInFilterEnd"
    and "\<exists>g \<in> set post. \<exists>sg. nfs g = Inr sg \<and> spec_Name sg = spec_Name sp"
  shows "Validate nfs reg \<lparr>Flow = fl, Filters = pre @ f # post\<rparr> =
         Validate nfs reg \<lparr>Flow = fl, Filters = pre @ post\<rparr>"
proof -
  have "validate_filter_specs nfs (pre @ f # post) Map.empty =
        validate_filter_specs nfs (pre @ post) Map.empty"
    unfolding validate_filter_specs_append
    using assms(1,2) validate_filter_specs_shadowed [OF assms(3)]
    by (simp add: isBuiltInFilter_def split: sum.splits)
  then show ?thesis
    by (simp add: Validate_def split: sum.splits option.splits)
qed

theorem Validate_shadowed_entry_witness:
  "example_nfs (filter_entry ''A'' ''Validator'') = Inr (filter_entry ''A'' ''Validator'') \<and>
   spec_Name (filter_entry ''A'' ''Validator'') \<noteq> builtInFilterEnd \<and>
   (\<exists>g \<in> set [filter_entry ''A'' ''Proxy'']. \<exists>sg. example_nfs g = Inr sg \<and>
        spec_Name sg = spec_Name (filter_entry ''A'' ''Validator'')) \<and>
   Validate example_nfs example_reg
     \<lparr>Flow = [spec_node ''A'' [(''done'', ''END'')]],
      Filters = [] @ filter_entry ''A'' ''Validator'' # [filter_entry ''A'' ''Proxy'']\<rparr> =
   Validate example_nfs example_reg
     \<lparr>Flow = [spec_node ''A'' [(''done'', ''END'')]],
      Filters = [] @ [filter_entry ''A'' ''Proxy'']\<rparr>"
proof -
  have 1: "example_nfs (filter_entry ''A'' ''Validator'') = Inr (filter_entry ''A'' ''Validator'')"
    by (simp add: example_nfs_def filter_entry_def)
  have 2: "spec_Name (filter_entry ''A'' ''Validator'') \<noteq> builtInFilterEnd"
    by (simp add: filter_entry_def builtInFilterEnd_def)
  have 3: "\<exists>g \<in> set [filter_entry ''A'' ''Proxy'']. \<exists>sg. example_nfs g = Inr sg \<and>
        spec_Name sg = spec_Name (filter_entry ''A'' ''Validator'')"
    by (simp add: example_nfs_def filter_entry_def)
  show ?thesis
    using Validate_shadowed_entry [where reg = example_reg and pre = "[]"
        and fl = "[spec_node ''A'' [(''done'', ''END'')]]", OF 1 2 3] 1 2 3
    by blast
qed

text \<open>
  Response identifiers. A flow node has a \<open>ResponseID\<close> and no field that names a
  response to consume, and \<open>Validate\<close> never reads \<open>ResponseID\<close>: whatever the response
  identifiers of the nodes are changed to, the result is the same.
\<close>

lemma validate_jumpIfs_ResponseID:
  "validate_jumpIfs reg specs (map (\<lambda>n. n\<lparr>ResponseID := g n\<rparr>) nodes) V =
   validate_jumpIfs reg specs nodes V"
  by (induction nodes arbitrary: V) (simp_all split: option.splits)

lemma validate_requestIDs_ResponseID:
  "validate_requestIDs (map (\<lambda>n. n\<lparr>ResponseID := g n\<rparr>) nodes) V =
   validate_requestIDs nodes V"
  by (induction nodes arbitrary: V) simp_all

lemma Validate_ignores_ResponseID:
  "Validate nfs reg (s\<lparr>Flow := map (\<lambda>n. n\<lparr>ResponseID := g n\<rparr>) (Flow s)\<rparr>) = Validate nfs reg s"
  by (simp add: Validate_def rev_map validate_jumpIfs_ResponseID
      validate_requestIDs_ResponseID split: sum.splits option.splits)

subsection \<open>Init and Inherit\<close>

text \<open>
  Whatever its outcome, a panic included, \<open>reload\<close> makes no other calls on filters than
  \<open>Init\<close> on a filter whose name the previous generation lacks and \<open>Inherit\<close> from the
  previous instance on a filter whose name it has.
\<close>

lemma calls_new_filter: "calls (snd (new_filter kind st)) = calls st"
  by (simp add: new_filter_def)

lemma create_filters_calls:
  "create_filters nfs reg pn raws fs specs st = (res, st') \<Longrightarrow> calls st' = calls st"
proof (induction raws arbitrary: fs specs st)
  case Nil
  then show ?case by auto
next
  case (Cons raw raws)
  show ?case
  proof (cases "nfs raw")
    case (Inl e)
    with Cons.prems show ?thesis by auto
  next
    case (Inr spec0)
    show ?thesis
    proof (cases "reg (spec_Kind spec0)")
      case None
      with Inr Cons.prems show ?thesis by auto
    next
      case (Some root)
      from Cons.prems Inr Some have
        "create_filters nfs reg pn raws (fs @ [length (objects st)])
           (specs @ [spec0\<lparr>pipeline := pn\<rparr>]) (st\<lparr>objects := objects st @ [spec_Kind spec0]\<rparr>)
         = (res, st')"
        by (simp add: new_filter_def Let_def)
      from Cons.IH [OF this] show ?thesis by simp
    qed
  qed
qed

lemma init_filters_calls:
  "init_filters pg zs pf st = (res, st') \<Longrightarrow>
   \<exists>new. calls st' = calls st @ new \<and> (\<forall>c \<in> set new. lifecycle_call pg c)"
proof (induction zs arbitrary: pf st)
  case Nil
  then show ?case by auto
next
  case (Cons z zs)
  obtain flt fspec where z: "z = (flt, fspec)" by (cases z)
  define c where "c = (case prev_filter pg (spec_Name fspec) of
                          None \<Rightarrow> FilterInit flt fspec
                        | Some pf \<Rightarrow> FilterInherit flt fspec pf)"
  have c_ok: "lifecycle_call pg c"
    by (auto simp: c_def lifecycle_call_def split: option.splits)
  define st1 where "st1 = st\<lparr>calls := calls st @ [c]\<rparr>"
  have step: "init_filters pg (z # zs) pf st =
      (case pf of None \<Rightarrow> (Inl NilMapAssignment, st1)
       | Some al \<Rightarrow> init_filters pg zs (Some (alist_put (spec_Name fspec) flt al)) st1)"
    by (cases pg) (auto simp: z st1_def c_def prev_filter_def Let_def split: option.splits)
  show ?case
  proof (cases pf)
    case None
    with step Cons.prems have "st' = st1" by simp
    then show ?thesis using c_ok by (simp add: st1_def)
  next
    case (Some al)
    with step Cons.prems have
      "init_filters pg zs (Some (alist_put (spec_Name fspec) flt al)) st1 = (res, st')"
      by simp
    from Cons.IH [OF this] obtain new where
      "calls st' = calls st1 @ new" "\<forall>c \<in> set new. lifecycle_call pg c"
      by blast
    then show ?thesis
      using c_ok by (intro exI [of _ "c # new"]) (simp add: st1_def)
  qed
qed

lemma reload_calls:
  assumes "reload nfs reg pg p st = (res, st')"
  shows "\<exists>new. calls st' = calls st @ new \<and> (\<forall>c \<in> set new. lifecycle_call pg c)"
proof (cases "superSpec p")
  case None
  with assms show ?thesis by (simp add: reload_def)
next
  case (Some ss)
  show ?thesis
  proof (cases "spec p")
    case None
    with Some assms show ?thesis by (simp add: reload_def)
  next
    case sp: (Some sp)
    obtain r1 st1 where cf: "create_filters nfs reg (super_Name ss) (Filters sp) [] [] st = (r1, st1)"
      by (cases "create_filters nfs reg (super_Name ss) (Filters sp) [] [] st")
    have c1: "calls st1 = calls st"
      by (rule create_filters_calls [OF cf])
    show ?thesis
    proof (cases r1)
      case (Inl e)
      with assms Some sp cf have "st' = st1" by (simp add: reload_def)
      with c1 show ?thesis by simp
    next
      case (Inr pr)
      obtain fs specs where pr: "pr = (fs, specs)" by (cases pr)
      obtain r2 st2 where inf: "init_filters pg (zip fs specs) (filters p) st1 = (r2, st2)"
        by (cases "init_filters pg (zip fs specs) (filters p) st1")
      from init_filters_calls [OF inf] obtain new where
        new: "calls st2 = calls st1 @ new" "\<forall>c \<in> set new. lifecycle_call pg c"
        by blast
      have "st' = st2"
        using assms Some sp cf Inr pr inf
        by (cases r2) (auto simp: reload_def Let_def split: if_splits)
      with new c1 show ?thesis by auto
    qed
  qed
qed

text \<open>
  A run of \<open>reload\<close> that completes: every filter entry of the spec has parsed; one
  instance has been created per entry, in order; and the calls made on filters are one per
  entry, on the new instance, in the order of the entries.
\<close>

lemma create_filters_result:
  "create_filters nfs reg pn raws fs specs st = (Inr (fs', specs'), st') \<Longrightarrow>
   \<exists>parsed. map nfs raws = map Inr parsed \<and>
     fs' = fs @ [length (objects st) ..< length (objects st) + length parsed] \<and>
     specs' = specs @ map (\<lambda>sp. sp\<lparr>pipeline := pn\<rparr>) parsed \<and>
     objects st' = objects st @ map spec_Kind parsed \<and> calls st' = calls st"
proof (induction raws arbitrary: fs specs st)
  case Nil
  then show ?case by auto
next
  case (Cons raw raws)
  show ?case
  proof (cases "nfs raw")
    case (Inl e)
    with Cons.prems show ?thesis by auto
  next
    case (Inr spec0)
    show ?thesis
    proof (cases "reg (spec_Kind spec0)")
      case None
      with Inr Cons.prems show ?thesis by auto
    next
      case (Some root)
      define st1 where "st1 = st\<lparr>objects := objects st @ [spec_Kind spec0]\<rparr>"
      from Cons.prems Inr Some have
        "create_filters nfs reg pn raws (fs @ [length (objects st)])
           (specs @ [spec0\<lparr>pipeline := pn\<rparr>]) st1 = (Inr (fs', specs'), st')"
        by (simp add: new_filter_def Let_def st1_def)
      from Cons.IH [OF this] obtain parsed where
        p: "map nfs raws = map Inr parsed"
          "fs' = (fs @ [length (objects st)]) @
                 [length (objects st1) ..< length (objects st1) + length parsed]"
          "specs' = (specs @ [spec0\<lparr>pipeline := pn\<rparr>]) @ map (\<lambda>sp. sp\<lparr>pipeline := pn\<rparr>) parsed"
          "objects st' = objects st1 @ map spec_Kind parsed" "calls st' = calls st1"
        by blast
      have l1: "length (objects st1) = Suc (length (objects st))"
        by (simp add: st1_def)
      have upt: "[length (objects st) ..< length (objects st) + length (spec0 # parsed)] =
          length (objects st) #
          [Suc (length (objects st)) ..< Suc (length (objects st)) + length parsed]"
        by (simp add: upt_conv_Cons del: upt_Suc)
      have fs'_eq: "fs' = fs @ [length (objects st) ..<
                                length (objects st) + length (spec0 # parsed)]"
        unfolding upt using p(2) l1 by simp
      show ?thesis
        using p(1,3,4,5) Inr fs'_eq
        by (intro exI [of _ "spec0 # parsed"]) (simp add: st1_def del: upt_Suc)
    qed
  qed
qed

lemma init_filters_done:
  "init_filters pg zs pf st = (Inr pf', st') \<Longrightarrow>
   objects st' = objects st \<and>
   calls st' = calls st @
     map (\<lambda>(flt, fspec). case prev_filter pg (spec_Name fspec) of
              None \<Rightarrow> FilterInit flt fspec
            | Some q \<Rightarrow> FilterInherit flt fspec q) zs"
proof (induction zs arbitrary: pf st)
  case Nil
  then show ?case by auto
next
  case (Cons z zs)
  obtain flt fspec where z: "z = (flt, fspec)" by (cases z)
  define c where "c = (case prev_filter pg (spec_Name fspec) of
                          None \<Rightarrow> FilterInit flt fspec
                        | Some pf \<Rightarrow> FilterInherit flt fspec pf)"
  define st1 where "st1 = st\<lparr>calls := calls st @ [c]\<rparr>"
  have step: "init_filters pg (z # zs) pf st =
      (case pf of None \<Rightarrow> (Inl NilMapAssignment, st1)
       | Some al \<Rightarrow> init_filters pg zs (Some (alist_put (spec_Name fspec) flt al)) st1)"
    by (cases pg) (auto simp: z st1_def c_def prev_filter_def Let_def split: option.splits)
  show ?case
  proof (cases pf)
    case None
    with step Cons.prems show ?thesis by simp
  next
    case (Some al)
    with step Cons.prems have
      "init_filters pg zs (Some (alist_put (spec_Name fspec) flt al)) st1 = (Inr pf', st')"
      by simp
    from Cons.IH [OF this] show ?thesis
      by (simp add: st1_def z c_def)
  qed
qed

lemma reload_done:
  assumes "reload nfs reg pg p st = (Inr p', st')"
    and "superSpec p = Some ss" "spec p = Some sp"
  shows "\<exists>parsed. map nfs (Filters sp) = map Inr parsed \<and>
     objects st' = objects st @ map spec_Kind parsed \<and>
     calls st' = calls st @
       map (\<lambda>(flt, s). case prev_filter pg (spec_Name s) of
                None \<Rightarrow> FilterInit flt (s\<lparr>pipeline := super_Name ss\<rparr>)
              | Some q \<Rightarrow> FilterInherit flt (s\<lparr>pipeline := super_Name ss\<rparr>) q)
         (zip [length (objects st) ..< length (objects st) + length parsed] parsed)"
proof -
  obtain r1 st1 where cf: "create_filters nfs reg (super_Name ss) (Filters sp) [] [] st = (r1, st1)"
    by (cases "create_filters nfs reg (super_Name ss) (Filters sp) [] [] st")
  from assms cf obtain fs specs where r1: "r1 = Inr (fs, specs)"
    by (cases r1) (auto simp: reload_def)
  obtain r2 st2 where inf: "init_filters pg (zip fs specs) (filters p) st1 = (r2, st2)"
    by (cases "init_filters pg (zip fs specs) (filters p) st1")
  from assms cf r1 inf obtain pf' where r2: "r2 = Inr pf'" and st': "st' = st2"
    by (cases r2) (auto simp: reload_def Let_def split: if_splits)
  from create_filters_result [OF cf [unfolded r1]] obtain parsed where
    p: "map nfs (Filters sp) = map Inr parsed"
      "fs = [length (objects st) ..< length (objects st) + length parsed]"
      "specs = map (\<lambda>s. s\<lparr>pipeline := super_Name ss\<rparr>) parsed"
      "objects st1 = objects st @ map spec_Kind parsed" "calls st1 = calls st"
    by auto
  from init_filters_done [OF inf [unfolded r2]] have
    d: "objects st2 = objects st1"
      "calls st2 = calls st1 @
         map (\<lambda>(flt, fspec). case prev_filter pg (spec_Name fspec) of
                  None \<Rightarrow> FilterInit flt fspec
                | Some q \<Rightarrow> FilterInherit flt fspec q) (zip fs specs)"
    by simp_all
  have "map (\<lambda>(flt, fspec). case prev_filter pg (spec_Name fspec) of
                  None \<Rightarrow> FilterInit flt fspec
                | Some q \<Rightarrow> FilterInherit flt fspec q) (zip fs specs) =
        map (\<lambda>(flt, s). case prev_filter pg (spec_Name s) of
                None \<Rightarrow> FilterInit flt (s\<lparr>pipeline := super_Name ss\<rparr>)
              | Some q \<Rightarrow> FilterInherit flt (s\<lparr>pipeline := super_Name ss\<rparr>) q)
         (zip [length (objects st) ..< length (objects st) + length parsed] parsed)"
    unfolding p(2,3) zip_map2 by (auto simp: case_prod_unfold split: option.splits)
  with p d st' show ?thesis by auto
qed

text \<open>
  Claim C3, as amended. After \<open>Inherit\<close> has completed with a previous generation, it has
  called \<open>Close\<close> on no filter, whether the name of the filter is present in the new spec
  or absent from it. The calls it has made on filters are exactly one per filter entry of
  the new spec, in the order of the entries, each on the instance newly created for the
  entry: \<open>Init\<close> when the previous generation has no filter of the entry's name, and
  \<open>Inherit\<close> with the previous generation's filter of that name otherwise.
\<close>

theorem Inherit_never_closes:
  assumes "Inherit nfs reg ss previousGeneration p st = (Inr p', st')"
  shows "\<exists>parsed. map nfs (Filters (ObjectSpec ss)) = map Inr parsed \<and>
           objects st' = objects st @ map spec_Kind parsed \<and>
           calls st' = calls st @
             map (\<lambda>(flt, s). case map_get (filters previousGeneration) (spec_Name s) of
                      None \<Rightarrow> FilterInit flt (s\<lparr>pipeline := super_Name ss\<rparr>)
                    | Some prev \<Rightarrow> FilterInherit flt (s\<lparr>pipeline := super_Name ss\<rparr>) prev)
               (zip [length (objects st) ..< length (objects st) + length parsed] parsed) \<and>
           (\<forall>f. FilterClose f \<notin> set (drop (length (calls st)) (calls st')))"
proof -
  from reload_done [OF assms [unfolded Inherit_def], of ss "ObjectSpec ss"] obtain parsed where
    p: "map nfs (Filters (ObjectSpec ss)) = map Inr parsed"
      "objects st' = objects st @ map spec_Kind parsed"
      "calls st' = calls st @
         map (\<lambda>(flt, s). case map_get (filters previousGeneration) (spec_Name s) of
                  None \<Rightarrow> FilterInit flt (s\<lparr>pipeline := super_Name ss\<rparr>)
                | Some prev \<Rightarrow> FilterInherit flt (s\<lparr>pipeline := super_Name ss\<rparr>) prev)
           (zip [length (objects st) ..< length (objects st) + length parsed] parsed)"
    by (auto simp: prev_filter_def)
  have "\<forall>f. FilterClose f \<notin> set (drop (length (calls st)) (calls st'))"
    unfolding p(3) by (auto split: option.splits)
  with p show ?thesis by blast
qed


lemma Inherit_empty:
  "Inherit example_nfs example_reg empty_super prev_generation zero_Pipeline prev_lifecycle =
     (Inr \<lparr>superSpec = Some empty_super, spec = Some (ObjectSpec empty_super),
           filters = None, flow = []\<rparr>, prev_lifecycle)"
  by (simp add: Inherit_def reload_def zero_Pipeline_def empty_super_def default_flow_def
      bind_flow_def)

lemma Inherit_keep:
  "Inherit example_nfs example_reg keep_super prev_generation made_Pipeline prev_lifecycle =
     (Inr \<lparr>superSpec = Some keep_super, spec = Some (ObjectSpec keep_super),
           filters = Some [(''keep'', 2)],
           flow = [flow_node ''keep'' [] 2]\<rparr>,
      \<lparr>objects = [''Proxy'', ''Limiter'', ''Limiter''],
       calls = [FilterInherit 2 \<lparr>spec_Name = ''keep'', spec_Kind = ''Limiter'',
                                 pipeline = ''demo''\<rparr> 1]\<rparr>)"
  by (simp add: Inherit_def reload_def zero_Pipeline_def made_Pipeline_def keep_super_def
      default_flow_def bind_flow_def example_nfs_def example_reg_def filter_entry_def
      new_filter_def prev_lifecycle_def prev_generation_def map_get_def flow_node_def
      builtInFilterEnd_def Let_def)

lemma Inherit_mixed:
  "Inherit example_nfs example_reg mixed_super prev_generation made_Pipeline prev_lifecycle =
     (Inr \<lparr>superSpec = Some mixed_super, spec = Some (ObjectSpec mixed_super),
           filters = Some [(''keep'', 2), (''fresh'', 3)],
           flow = [flow_node ''keep'' [] 2, flow_node ''fresh'' [] 3]\<rparr>,
      \<lparr>objects = [''Proxy'', ''Limiter'', ''Limiter'', ''Proxy''],
       calls = [FilterInherit 2 \<lparr>spec_Name = ''keep'', spec_Kind = ''Limiter'',
                                 pipeline = ''demo''\<rparr> 1,
                FilterInit 3 \<lparr>spec_Name = ''fresh'', spec_Kind = ''Proxy'',
                              pipeline = ''demo''\<rparr>]\<rparr>)"
  by (simp add: Inherit_def reload_def zero_Pipeline_def made_Pipeline_def mixed_super_def
      default_flow_def bind_flow_def example_nfs_def example_reg_def filter_entry_def
      new_filter_def prev_lifecycle_def prev_generation_def map_get_def flow_node_def
      builtInFilterEnd_def Let_def)

text \<open>
  The flow \<open>repeat_flow\<close> of the examples is a compiled flow: its spec is accepted by
  \<open>Validate\<close>, and \<open>Init\<close> binds the four instances to its nodes.
\<close>

lemma repeat_spec_valid: "Validate example_nfs example_reg repeat_spec = None"
  by (simp add: Validate_def repeat_spec_def example_filters_specs spec_node_def
      builtInFilterEnd_def defaultRequest_def example_reg_def filter_entry_def StrInSlice_def)

lemma repeat_spec_compiled:
  "(case fst (Init example_nfs example_reg \<lparr>super_Name = ''demo'', ObjectSpec = repeat_spec\<rparr>
               made_Pipeline \<lparr>objects = [], calls = []\<rparr>) of
      Inl e \<Rightarrow> None
    | Inr p' \<Rightarrow> Some (flow p')) = Some repeat_flow"
  by (simp add: Init_def reload_def zero_Pipeline_def made_Pipeline_def repeat_spec_def
      example_filters_def
      default_flow_def bind_flow_def example_nfs_def example_reg_def filter_entry_def
      new_filter_def map_get_def flow_node_def spec_node_def repeat_flow_def
      builtInFilterEnd_def Let_def)

theorem Inherit_never_closes_witness:
  "\<exists>p' st'.
     Inherit example_nfs example_reg mixed_super prev_generation made_Pipeline prev_lifecycle =
       (Inr p', st') \<and>
     objects st' = [''Proxy'', ''Limiter'', ''Limiter'', ''Proxy''] \<and>
     calls st' = [FilterInherit 2 \<lparr>spec_Name = ''keep'', spec_Kind = ''Limiter'',
                                  pipeline = ''demo''\<rparr> 1,
                 FilterInit 3 \<lparr>spec_Name = ''fresh'', spec_Kind = ''Proxy'',
                               pipeline = ''demo''\<rparr>] \<and>
     (\<forall>f. FilterClose f \<notin> set (calls st'))"
proof -
  obtain p' st' where
    I: "Inherit example_nfs example_reg mixed_super prev_generation made_Pipeline prev_lifecycle =
       (Inr p', st')"
    by (simp add: Inherit_mixed)
  from Inherit_never_closes [OF I] obtain parsed where
    p: "map example_nfs (Filters (ObjectSpec mixed_super)) = map Inr parsed"
      "objects st' = objects prev_lifecycle @ map spec_Kind parsed"
      "calls st' = calls prev_lifecycle @
             map (\<lambda>(flt, s). case map_get (filters prev_generation) (spec_Name s) of
                      None \<Rightarrow> FilterInit flt (s\<lparr>pipeline := super_Name mixed_super\<rparr>)
                    | Some prev \<Rightarrow> FilterInherit flt (s\<lparr>pipeline := super_Name mixed_super\<rparr>) prev)
               (zip [length (objects prev_lifecycle) ..<
                     length (objects prev_lifecycle) + length parsed] parsed)"
      "\<forall>f. FilterClose f \<notin> set (drop (length (calls prev_lifecycle)) (calls st'))"
    by blast
  from p(1) have parsed: "parsed = [filter_entry ''keep'' ''Limiter'', filter_entry ''fresh'' ''Proxy'']"
    by (auto simp: mixed_super_def example_nfs_def filter_entry_def)
  have o: "objects st' = [''Proxy'', ''Limiter'', ''Limiter'', ''Proxy'']"
    using p(2) by (simp add: parsed prev_lifecycle_def filter_entry_def)
  have c: "calls st' = [FilterInherit 2 \<lparr>spec_Name = ''keep'', spec_Kind = ''Limiter'',
                                  pipeline = ''demo''\<rparr> 1,
                 FilterInit 3 \<lparr>spec_Name = ''fresh'', spec_Kind = ''Proxy'',
                               pipeline = ''demo''\<rparr>]"
    using p(3) by (simp add: parsed prev_lifecycle_def prev_generation_def map_get_def
        filter_entry_def mixed_super_def upt_rec)
  have n: "\<forall>f. FilterClose f \<notin> set (calls st')"
    using p(4) by (simp add: prev_lifecycle_def)
  from I o c n show ?thesis by blast
qed

text \<open>
  The claim as stated has \<open>Close\<close> called once on each filter of the previous generation
  whose name is absent from the new spec. The previous generation below holds the filters
  \<open>old\<close> and \<open>keep\<close>. \<open>Inherit\<close> with a new spec without filters, on a zero pipeline,
  completes and calls nothing; \<open>Inherit\<close> with a new spec that keeps \<open>keep\<close>, on a pipeline
  whose map has been made, completes with the single call \<open>Inherit\<close> on the new \<open>keep\<close>.
  In both runs \<open>old\<close> is absent from the new spec and is not closed.
\<close>

theorem Inherit_closes_nothing_counterexample:
  "map_get (filters prev_generation) ''old'' = Some 0 \<and>
   Inherit example_nfs example_reg empty_super prev_generation zero_Pipeline prev_lifecycle =
     (Inr \<lparr>superSpec = Some empty_super, spec = Some (ObjectSpec empty_super),
           filters = None, flow = []\<rparr>,
      \<lparr>objects = [''Proxy'', ''Limiter''], calls = []\<rparr>) \<and>
   Inherit example_nfs example_reg keep_super prev_generation made_Pipeline prev_lifecycle =
     (Inr \<lparr>superSpec = Some keep_super, spec = Some (ObjectSpec keep_super),
           filters = Some [(''keep'', 2)],
           flow = [flow_node ''keep'' [] 2]\<rparr>,
      \<lparr>objects = [''Proxy'', ''Limiter'', ''Limiter''],
       calls = [FilterInherit 2 \<lparr>spec_Name = ''keep'', spec_Kind = ''Limiter'',
                                 pipeline = ''demo''\<rparr> 1]\<rparr>)"
  unfolding Inherit_empty Inherit_keep
  by (simp add: prev_generation_def prev_lifecycle_def map_get_def)

text \<open>
  \<open>Close\<close> of the pipeline is the one place where the package calls \<open>Close\<close> on
  filters: once on every filter of the generation.
\<close>

lemma Close_calls:
  "filters p = Some al \<Longrightarrow>
   calls (Close p st) = calls st @ map (\<lambda>(name, flt). FilterClose flt) al"
  by (simp add: Close_def)

subsection \<open>Compiled flows\<close>

text \<open>
  A flow compiled from a spec that \<open>Validate\<close> accepts has a filter bound to every node
  other than \<open>END\<close>: validation finds each node's filter among the filter entries, and
  \<open>reload\<close> enters an instance under the name of every entry before it binds the nodes.
  On such a flow \<open>Handle\<close> never meets a nil filter.
\<close>

lemma validate_filter_specs_dom:
  "validate_filter_specs nfs raws S = Inr specs \<Longrightarrow>
   dom specs = dom S \<union> {n. \<exists>raw \<in> set raws. \<exists>sp. nfs raw = Inr sp \<and> spec_Name sp = n}"
proof (induction raws arbitrary: S)
  case Nil
  then show ?case by simp
next
  case (Cons raw raws)
  from Cons.prems obtain sp where sp: "nfs raw = Inr sp"
    and rest: "validate_filter_specs nfs raws (S(spec_Name sp \<mapsto> sp)) = Inr specs"
    by (auto simp: Let_def split: sum.splits if_splits)
  have "dom specs = dom (S(spec_Name sp \<mapsto> sp)) \<union>
       {n. \<exists>raw \<in> set raws. \<exists>sp. nfs raw = Inr sp \<and> spec_Name sp = n}"
    using rest by (rule Cons.IH)
  then have "dom specs = insert (spec_Name sp) (dom S) \<union>
       {n. \<exists>raw \<in> set raws. \<exists>sp. nfs raw = Inr sp \<and> spec_Name sp = n}"
    by simp
  with sp show ?case by auto
qed

lemma validate_jumpIfs_found:
  "validate_jumpIfs reg specs nodes V = None \<Longrightarrow>
   \<forall>n \<in> set nodes. Filter n \<noteq> builtInFilterEnd \<longrightarrow> Filter n \<in> dom specs"
  by (induction nodes arbitrary: V) (auto split: if_splits option.splits)

lemma create_filters_names:
  "create_filters nfs reg pn raws fs specs st = (Inr (fs', specs'), st') \<Longrightarrow>
   length fs = length specs \<Longrightarrow>
   length fs' = length specs' \<and>
   spec_Name ` set specs' =
     spec_Name ` set specs \<union> {n. \<exists>raw \<in> set raws. \<exists>sp. nfs raw = Inr sp \<and> spec_Name sp = n}"
proof (induction raws arbitrary: fs specs st)
  case Nil
  then show ?case by auto
next
  case (Cons raw raws)
  from Cons.prems(1) obtain sp0 root where sp0: "nfs raw = Inr sp0" "reg (spec_Kind sp0) = Some root"
    by (auto split: sum.splits option.splits)
  with Cons.prems(1) have rest:
    "create_filters nfs reg pn raws (fs @ [length (objects st)]) (specs @ [sp0\<lparr>pipeline := pn\<rparr>])
       (st\<lparr>objects := objects st @ [spec_Kind sp0]\<rparr>) = (Inr (fs', specs'), st')"
    by (simp add: new_filter_def Let_def)
  have len: "length (fs @ [length (objects st)]) = length (specs @ [sp0\<lparr>pipeline := pn\<rparr>])"
    using Cons.prems(2) by simp
  from Cons.IH [OF rest len] sp0 show ?case by auto
qed

lemma map_of_alist_put: "map_of (alist_put k v al) = (map_of al)(k \<mapsto> v)"
  by (induction al) (auto simp: fun_upd_twist)

lemma init_filters_bound:
  "init_filters pg zs pf st = (Inr pf', st') \<Longrightarrow>
   (\<forall>k. map_get pf k \<noteq> None \<longrightarrow> map_get pf' k \<noteq> None) \<and>
   (\<forall>z \<in> set zs. map_get pf' (spec_Name (snd z)) \<noteq> None)"
proof (induction zs arbitrary: pf st)
  case Nil
  then show ?case by simp
next
  case (Cons z zs)
  obtain flt fspec where z: "z = (flt, fspec)" by (cases z)
  from Cons.prems z obtain al st1 where al: "pf = Some al"
    and rest: "init_filters pg zs (Some (alist_put (spec_Name fspec) flt al)) st1 = (Inr pf', st')"
    by (auto simp: Let_def split: option.splits)
  from Cons.IH [OF rest] have
    keep: "\<forall>k. map_get (Some (alist_put (spec_Name fspec) flt al)) k \<noteq> None \<longrightarrow> map_get pf' k \<noteq> None"
    and ih: "\<forall>z \<in> set zs. map_get pf' (spec_Name (snd z)) \<noteq> None"
    by blast+
  have here: "map_get pf' (spec_Name fspec) \<noteq> None"
    using keep by (simp add: map_get_def map_of_alist_put)
  have old: "\<forall>k. map_get pf k \<noteq> None \<longrightarrow> map_get pf' k \<noteq> None"
    using keep al by (simp add: map_get_def map_of_alist_put)
  show ?case using here old ih z by simp
qed

lemma reload_binds:
  assumes r: "reload nfs reg pg p st = (Inr p', st')"
    and sp: "spec p = Some sp"
    and v: "Validate nfs reg sp = None"
  shows "\<forall>n \<in> set (flow p'). Filter n \<noteq> builtInFilterEnd \<longrightarrow> filter_b n \<noteq> None"
proof -
  from r sp obtain ss where ss: "superSpec p = Some ss"
    by (cases "superSpec p") (auto simp: reload_def)
  obtain r1 st1 where cf: "create_filters nfs reg (super_Name ss) (Filters sp) [] [] st = (r1, st1)"
    by (cases "create_filters nfs reg (super_Name ss) (Filters sp) [] [] st")
  from r sp ss cf obtain fs specs where r1: "r1 = Inr (fs, specs)"
    by (cases r1) (auto simp: reload_def)
  obtain r2 st2 where inf: "init_filters pg (zip fs specs) (filters p) st1 = (r2, st2)"
    by (cases "init_filters pg (zip fs specs) (filters p) st1")
  from r sp ss cf r1 inf obtain pf' where r2: "r2 = Inr pf'"
    by (cases r2) (auto simp: reload_def)
  have fl: "flow p' = bind_flow pf' (if length (Flow sp) = 0 then default_flow specs else Flow sp)"
    using r sp ss cf r1 inf r2 by (auto simp: reload_def Let_def split: if_splits)
  from create_filters_names [OF cf [unfolded r1]] have
    len: "length fs = length specs"
    and names: "spec_Name ` set specs =
      {n. \<exists>raw \<in> set (Filters sp). \<exists>s. nfs raw = Inr s \<and> spec_Name s = n}"
    by auto
  from init_filters_bound [OF inf [unfolded r2]] have
    "\<forall>z \<in> set (zip fs specs). map_get pf' (spec_Name (snd z)) \<noteq> None"
    by blast
  moreover have "snd ` set (zip fs specs) = set specs"
    using len by (metis map_snd_zip set_map)
  ultimately have bound: "\<forall>s \<in> set specs. map_get pf' (spec_Name s) \<noteq> None"
    by force
  obtain vspecs where vs: "validate_filter_specs nfs (Filters sp) Map.empty = Inr vspecs"
    and vj: "validate_jumpIfs reg vspecs (rev (Flow sp)) ((\<lambda>_. False)(builtInFilterEnd := True)) = None"
    using v by (auto simp: Validate_def split: sum.splits option.splits)
  have known: "\<forall>n \<in> set (Flow sp). Filter n \<noteq> builtInFilterEnd \<longrightarrow>
      Filter n \<in> spec_Name ` set specs"
    using validate_jumpIfs_found [OF vj] validate_filter_specs_dom [OF vs] names by auto
  show ?thesis
  proof (cases "length (Flow sp) = 0")
    case True
    then show ?thesis
      using bound by (auto simp: fl bind_flow_def default_flow_def)
  next
    case False
    then show ?thesis
      using bound known by (auto simp: fl bind_flow_def)
  qed
qed

lemma Init_binds:
  assumes "Init nfs reg ss p st = (Inr p', st')" and "Validate nfs reg (ObjectSpec ss) = None"
  shows "\<forall>n \<in> set (flow p'). Filter n \<noteq> builtInFilterEnd \<longrightarrow> filter_b n \<noteq> None"
  using assms(1) unfolding Init_def
  by (rule reload_binds) (use assms(2) in simp_all)

lemma Inherit_binds:
  assumes "Inherit nfs reg ss pg p st = (Inr p', st')" and "Validate nfs reg (ObjectSpec ss) = None"
  shows "\<forall>n \<in> set (flow p'). Filter n \<noteq> builtInFilterEnd \<longrightarrow> filter_b n \<noteq> None"
  using assms(1) unfolding Inherit_def
  by (rule reload_binds) (use assms(2) in simp_all)

end
